theory Spec2Isabelle
  imports Main "HOL-Library.Sublist" "HOL-Library.Extended_Nat" "HOL-Library.Multiset"
begin

section \<open>Strings\<close>

text \<open>
  Python strings are modelled as \<open>string\<close> (lists of \<open>char\<close>), where a \<open>char\<close> is one code
  point below 256 (ASCII and Latin-1); strings with other code points are outside the
  type. The email extractor looks at characters only through equality and through
  membership in a fixed set of ASCII characters. The link prioritizer lower-cases strings
  and uses the word characters of Python's \<^verbatim>\<open>re\<close>, which are Unicode-aware; the
  definitions of \<open>lower_char\<close> and \<open>is_alnum\<close> below give what Python gives on each of the
  256 code points.
\<close>

text \<open>
  \<^verbatim>\<open>sub in s[pos:]\<close>, as an index: the lowest offset at which \<open>target\<close> starts in the
  given text, if any.
\<close>

fun find_idx :: "'a list \<Rightarrow> 'a list \<Rightarrow> nat option" where
  "find_idx target [] = (if target = [] then Some 0 else None)"
| "find_idx target (c # cs) =
     (if prefix target (c # cs) then Some 0 else map_option Suc (find_idx target cs))"

text \<open>
  \<^verbatim>\<open>text.find(target, pos)\<close> for \<open>pos \<ge> 0\<close>: the lowest index \<open>i \<ge> pos\<close> with
  \<^verbatim>\<open>text[i:i+len(target)] == target\<close>; \<open>None\<close> stands for the result \<open>-1\<close>.
\<close>

definition str_find :: "'a list \<Rightarrow> 'a list \<Rightarrow> nat \<Rightarrow> nat option" where
  "str_find text target pos =
     (if pos \<le> length text then map_option (\<lambda>i. pos + i) (find_idx target (drop pos text))
      else None)"

text \<open>\<^verbatim>\<open>sub in s\<close>.\<close>

definition str_contains :: "'a list \<Rightarrow> 'a list \<Rightarrow> bool" where
  "str_contains sub s = (str_find s sub 0 \<noteq> None)"

text \<open>\<^verbatim>\<open>s[i:j]\<close> for \<open>0 \<le> i\<close> and \<open>0 \<le> j\<close>.\<close>

definition slice :: "'a list \<Rightarrow> nat \<Rightarrow> nat \<Rightarrow> 'a list" where
  "slice s i j = take (j - i) (drop i s)"

text \<open>
  \<^verbatim>\<open>s.replace(old, '')\<close>: every non-overlapping occurrence of \<open>old\<close>, found from the
  left, is removed (an empty \<open>old\<close> leaves \<open>s\<close> as it is).
\<close>

function str_remove :: "'a list \<Rightarrow> 'a list \<Rightarrow> 'a list" where
  "str_remove old [] = []"
| "str_remove old (c # cs) =
     (if old \<noteq> [] \<and> prefix old (c # cs) then str_remove old (drop (length old) (c # cs))
      else c # str_remove old cs)"
  by pat_completeness auto
termination
  by (relation "measure (\<lambda>(old, s). length s)") auto

text \<open>\<^verbatim>\<open>s.removeprefix(p)\<close>: what stripping a leading \<open>p\<close> means.\<close>

definition strip_leading :: "'a list \<Rightarrow> 'a list \<Rightarrow> 'a list" where
  "strip_leading p s = (if prefix p s then drop (length p) s else s)"

section \<open>The email extractor\<close>

definition allowed_chars :: "char set" where
  "allowed_chars = set ''abcdefghijklmnopqrstuvwxyzABCDEFGHIJKLMNOPQRSTUVWXYZ0123456789_.-''"

text \<open>
  The inner loop of \<^verbatim>\<open>extract_emails\<close>:
  \<^verbatim>\<open>while start >= 0 and text[start] in allowed_chars: start -= 1\<close>.
  \<open>start\<close> is a Python integer and ends at \<open>-1\<close> when the walk reaches the start of the text.
\<close>

function walk_back :: "string \<Rightarrow> int \<Rightarrow> int" where
  "walk_back text start =
     (if start \<ge> 0 \<and> text ! nat start \<in> allowed_chars then walk_back text (start - 1)
      else start)"
  by pat_completeness auto
termination
  by (relation "measure (\<lambda>(text, start). nat (start + 1))") auto

declare walk_back.simps [simp del]

text \<open>
  The scan loop of \<^verbatim>\<open>extract_emails\<close> (\<^verbatim>\<open>while True: ...\<close>). The loop receives the
  domain \<open>d\<close> after the replacement, and \<open>target\<close> is \<open>"@" + d\<close> as in the source.
  \<open>emails\<close> is the Python set, kept as a duplicate-free list. \<open>n\<close> is not in the source:
  it counts the passes through the loop body (the pass that ends in \<^verbatim>\<open>break\<close> included),
  and nothing else reads it.
\<close>

function scan :: "string \<Rightarrow> string \<Rightarrow> nat \<Rightarrow> string list \<Rightarrow> nat \<Rightarrow> string list \<times> nat" where
  "scan text d pos emails n =
     (let target = CHR ''@'' # d; target_len = length target in
      case str_find text target pos of
        None \<Rightarrow> (emails, Suc n)
      | Some p \<Rightarrow>
          let end_idx = p + target_len in
          if end_idx < length text \<and> text ! end_idx \<in> allowed_chars
          then scan text d (p + target_len) emails (Suc n)
          else
            let start = walk_back text (int p - 1);
                username = slice text (nat (start + 1)) p
            in scan text d (p + target_len)
                 (if username \<noteq> [] then List.insert (username @ target) emails else emails)
                 (Suc n))"
  by pat_completeness auto

lemma find_idx_Some:
  "find_idx t s = Some i \<Longrightarrow> i + length t \<le> length s \<and> take (length t) (drop i s) = t"
proof (induction s arbitrary: i)
  case Nil
  then show ?case by (simp split: if_splits)
next
  case (Cons c cs)
  show ?case
  proof (cases "prefix t (c # cs)")
    case True
    with Cons.prems have i: "i = 0" by simp
    from True obtain zs where zs: "c # cs = t @ zs"
      by (auto simp: prefix_def)
    have "length (c # cs) = length t + length zs" "take (length t) (c # cs) = t"
      by (simp_all add: zs)
    with i show ?thesis by simp
  next
    case False
    with Cons.prems obtain j where j: "find_idx t cs = Some j" "i = Suc j"
      by auto
    with Cons.IH [of j] show ?thesis by simp
  qed
qed

lemma str_find_Some:
  assumes "str_find text t pos = Some p"
  shows "pos \<le> p" and "p + length t \<le> length text" and "take (length t) (drop p text) = t"
proof -
  from assms obtain i where i: "find_idx t (drop pos text) = Some i" "p = pos + i" "pos \<le> length text"
    by (auto simp: str_find_def split: if_splits)
  from find_idx_Some [OF i(1)] i(2,3)
  show "pos \<le> p" and "p + length t \<le> length text" and "take (length t) (drop p text) = t"
    by (auto simp: add.commute)
qed

termination scan
proof (relation "measure (\<lambda>(text, d, pos, emails, n). length text - pos)", goal_cases)
  case 1
  show ?case by simp
next
  case (2 tx d pos emails n target target_len p end_idx)
  from 2(3) have "pos \<le> p" "p + length target \<le> length tx"
    by (rule str_find_Some)+
  with 2(1,2) show ?case by simp
next
  case (3 tx d pos emails n target target_len p end_idx start username)
  from 3(3) have "pos \<le> p" "p + length target \<le> length tx"
    by (rule str_find_Some)+
  with 3(1,2) show ?case by simp
qed

declare scan.simps [simp del]

text \<open>\<^verbatim>\<open>extract_emails(text, domain)\<close>; the result list stands for the returned set.\<close>

definition extract_emails :: "string \<Rightarrow> string \<Rightarrow> string list" where
  "extract_emails text domain = fst (scan text (str_remove ''www.'' domain) 0 [] 0)"

text \<open>The number of passes through the scan loop that this call makes.\<close>

definition extract_passes :: "string \<Rightarrow> string \<Rightarrow> nat" where
  "extract_passes text domain = snd (scan text (str_remove ''www.'' domain) 0 [] 0)"

subsection \<open>What an extracted address looks like\<close>

text \<open>
  \<open>occurs_at s p e\<close>: the string \<open>e\<close> stands in \<open>s\<close> at index \<open>p\<close>. An address \<open>e\<close> is
  well anchored in the text for a target when it is a non-empty local part of allowed
  characters followed by the target, it stands somewhere in the text, and there the
  characters next to it on either side (where the text has any) are not allowed ones.
\<close>

definition occurs_at :: "'a list \<Rightarrow> nat \<Rightarrow> 'a list \<Rightarrow> bool" where
  "occurs_at s p e = (p + length e \<le> length s \<and> take (length e) (drop p s) = e)"

definition well_anchored :: "string \<Rightarrow> string \<Rightarrow> string \<Rightarrow> bool" where
  "well_anchored text target e =
     (\<exists>u p. e = u @ target \<and> u \<noteq> [] \<and> set u \<subseteq> allowed_chars \<and> occurs_at text p e \<and>
        (p = 0 \<or> text ! (p - 1) \<notin> allowed_chars) \<and>
        (p + length e = length text \<or> text ! (p + length e) \<notin> allowed_chars))"

lemma walk_back_spec:
  assumes "- 1 \<le> start"
  shows "- 1 \<le> walk_back T start" and "walk_back T start \<le> start"
    and "\<And>i. walk_back T start < i \<Longrightarrow> i \<le> start \<Longrightarrow> T ! nat i \<in> allowed_chars"
    and "0 \<le> walk_back T start \<Longrightarrow> T ! nat (walk_back T start) \<notin> allowed_chars"
  using assms
proof (induction T start rule: walk_back.induct)
  case (1 T start)
  let ?c = "start \<ge> 0 \<and> T ! nat start \<in> allowed_chars"
  have stop: "walk_back T start = start" if "\<not> ?c"
    using that by (subst walk_back.simps) auto
  have go: "walk_back T start = walk_back T (start - 1)" if "?c"
    using that by (subst walk_back.simps) auto
  have dec: "- 1 \<le> start - 1" if "?c"
    using that by simp
  {
    case 1
    show ?case
    proof (cases ?c)
      case True
      from "1.IH"(1) [OF True dec [OF True]] show ?thesis by (simp add: go [OF True])
    next
      case False
      with "1.prems" show ?thesis by (simp add: stop [OF False])
    qed
  next
    case 2
    show ?case
    proof (cases ?c)
      case True
      from "1.IH"(2) [OF True dec [OF True]] show ?thesis by (simp add: go [OF True])
    next
      case False
      show ?thesis by (simp add: stop [OF False])
    qed
  next
    case (3 i)
    show ?case
    proof (cases ?c)
      case True
      note w = 3 [unfolded go [OF True]]
      show ?thesis
      proof (cases "i = start")
        case True
        with \<open>?c\<close> show ?thesis by simp
      next
        case False
        with w have "i \<le> start - 1" by simp
        from "1.IH"(3) [OF True w(1) this dec [OF True]] show ?thesis .
      qed
    next
      case False
      from 3 show ?thesis by (simp add: stop [OF False])
    qed
  next
    case 4
    show ?case
    proof (cases ?c)
      case True
      note w = 4 [unfolded go [OF True]]
      from "1.IH"(4) [OF True w(1) dec [OF True]] show ?thesis by (simp add: go [OF True])
    next
      case False
      with 4 show ?thesis by (auto simp add: stop [OF False])
    qed
  }
qed


lemma scan_unfold_None:
  "str_find T (CHR ''@'' # d) pos = None \<Longrightarrow> scan T d pos emails n = (emails, Suc n)"
  by (subst scan.simps) simp

lemma scan_unfold_skip:
  "str_find T (CHR ''@'' # d) pos = Some p \<Longrightarrow>
   p + length (CHR ''@'' # d) < length T \<and> T ! (p + length (CHR ''@'' # d)) \<in> allowed_chars \<Longrightarrow>
   scan T d pos emails n = scan T d (p + length (CHR ''@'' # d)) emails (Suc n)"
  by (subst scan.simps) (simp add: Let_def)

lemma scan_unfold_take:
  "str_find T (CHR ''@'' # d) pos = Some p \<Longrightarrow>
   \<not> (p + length (CHR ''@'' # d) < length T \<and> T ! (p + length (CHR ''@'' # d)) \<in> allowed_chars) \<Longrightarrow>
   scan T d pos emails n =
     scan T d (p + length (CHR ''@'' # d))
       (if slice T (nat (walk_back T (int p - 1) + 1)) p \<noteq> []
        then List.insert (slice T (nat (walk_back T (int p - 1) + 1)) p @ CHR ''@'' # d) emails
        else emails)
       (Suc n)"
  by (subst scan.simps) (auto simp add: Let_def)

lemma username_anchored:
  assumes occ: "p + length target \<le> length T" "take (length target) (drop p T) = target"
    and stop: "\<not> (p + length target < length T \<and> T ! (p + length target) \<in> allowed_chars)"
    and ne: "slice T (nat (walk_back T (int p - 1) + 1)) p \<noteq> []"
  shows "well_anchored T target (slice T (nat (walk_back T (int p - 1) + 1)) p @ target)"
proof -
  define start where "start = walk_back T (int p - 1)"
  define q where "q = nat (start + 1)"
  define u where "u = slice T q p"
  have m1: "- 1 \<le> int p - 1" by simp
  note wb = walk_back_spec [OF m1, of T, folded start_def]
  from wb(1,2) have q: "q \<le> p" "int q = start + 1"
    by (simp_all add: q_def)
  have u: "u = take (p - q) (drop q T)"
    by (simp add: u_def slice_def)
  from q occ(1) have lenu: "length u = p - q"
    by (simp add: u)
  have allowed: "set u \<subseteq> allowed_chars"
  proof
    fix c assume "c \<in> set u"
    then obtain j where j: "j < length u" "c = u ! j"
      by (auto simp: in_set_conv_nth)
    with lenu q occ(1) have c: "c = T ! (q + j)" "q + j < p"
      by (simp_all add: u)
    from c(2) q(2) have "start < int (q + j)" "int (q + j) \<le> int p - 1"
      by simp_all
    from wb(3) [OF this] have "T ! nat (int (q + j)) \<in> allowed_chars" .
    then show "c \<in> allowed_chars"
      unfolding nat_int c(1) .
  qed
  have "take (length (u @ target)) (drop q T) = take (p - q) (drop q T) @ take (length target) (drop (p - q) (drop q T))"
    by (simp add: lenu take_add)
  also from q(1) have "drop (p - q) (drop q T) = drop p T"
    by simp
  finally have occu: "take (length (u @ target)) (drop q T) = u @ target"
    by (simp add: u occ(2))
  from q(1) occ(1) have fits: "q + length (u @ target) \<le> length T"
    by (simp add: lenu)
  have left: "q = 0 \<or> T ! (q - 1) \<notin> allowed_chars"
  proof (cases "0 \<le> start")
    case True
    with q(2) have "nat start = q - 1" by simp
    with wb(4) [OF True] show ?thesis by simp
  next
    case False
    with wb(1) have "q = 0" by (simp add: q_def)
    then show ?thesis ..
  qed
  from q(1) have e: "q + length (u @ target) = p + length target"
    by (simp add: lenu)
  from stop occ(1) have "p + length target = length T \<or> T ! (p + length target) \<notin> allowed_chars"
    by auto
  then have right: "q + length (u @ target) = length T \<or> T ! (q + length (u @ target)) \<notin> allowed_chars"
    unfolding e .
  from ne have "u \<noteq> []"
    by (simp add: u_def q_def start_def)
  with allowed occu fits left right have "well_anchored T target (u @ target)"
    unfolding well_anchored_def occurs_at_def by blast
  then show ?thesis
    by (simp add: u_def q_def start_def)
qed

lemma scan_anchored:
  assumes "\<forall>e\<in>set emails. well_anchored T (CHR ''@'' # d) e"
  shows "\<forall>e\<in>set (fst (scan T d pos emails n)). well_anchored T (CHR ''@'' # d) e"
  using assms
proof (induction T d pos emails n rule: scan.induct)
  case (1 T d pos emails n)
  let ?target = "CHR ''@'' # d"
  show ?case
  proof (cases "str_find T ?target pos")
    case None
    with "1.prems" show ?thesis
      by (simp add: scan_unfold_None)
  next
    case (Some p)
    note occ = str_find_Some [OF Some]
    let ?skip = "p + length ?target < length T \<and> T ! (p + length ?target) \<in> allowed_chars"
    show ?thesis
    proof (cases ?skip)
      case True
      from "1.IH"(1) [OF refl refl Some refl True "1.prems"] show ?thesis
        by (simp only: scan_unfold_skip [OF Some True])
    next
      case False
      let ?u = "slice T (nat (walk_back T (int p - 1) + 1)) p"
      let ?emails = "if ?u \<noteq> [] then List.insert (?u @ ?target) emails else emails"
      have "\<forall>e\<in>set ?emails. well_anchored T ?target e"
        using "1.prems" username_anchored [OF occ(2,3) False] by auto
      from "1.IH"(2) [OF refl refl Some refl False refl refl this] show ?thesis
        by (simp only: scan_unfold_take [OF Some False])
    qed
  qed
qed

lemma extract_emails_anchored:
  "e \<in> set (extract_emails T D) \<Longrightarrow> well_anchored T (CHR ''@'' # str_remove ''www.'' D) e"
  using scan_anchored [of "[]" T "str_remove ''www.'' D" 0 0]
  by (simp add: extract_emails_def)


lemma scan_distinct:
  assumes "distinct emails"
  shows "distinct (fst (scan T d pos emails n))"
  using assms
proof (induction T d pos emails n rule: scan.induct)
  case (1 T d pos emails n)
  let ?target = "CHR ''@'' # d"
  show ?case
  proof (cases "str_find T ?target pos")
    case None
    with "1.prems" show ?thesis
      by (simp add: scan_unfold_None)
  next
    case (Some p)
    let ?skip = "p + length ?target < length T \<and> T ! (p + length ?target) \<in> allowed_chars"
    show ?thesis
    proof (cases ?skip)
      case True
      from "1.IH"(1) [OF refl refl Some refl True "1.prems"] show ?thesis
        by (simp only: scan_unfold_skip [OF Some True])
    next
      case False
      let ?u = "slice T (nat (walk_back T (int p - 1) + 1)) p"
      let ?emails = "if ?u \<noteq> [] then List.insert (?u @ ?target) emails else emails"
      from "1.prems" have "distinct ?emails"
        by simp
      from "1.IH"(2) [OF refl refl Some refl False refl refl this] show ?thesis
        by (simp only: scan_unfold_take [OF Some False])
    qed
  qed
qed

lemma extract_emails_distinct: "distinct (extract_emails T D)"
  using scan_distinct [of "[]" T "str_remove ''www.'' D" 0 0]
  by (simp add: extract_emails_def)

lemma extract_emails_dedup:
  "set (extract_emails ''a@x.com b@x.com a@x.com'' ''x.com'') = {''a@x.com'', ''b@x.com''}"
proof -
  have "extract_emails ''a@x.com b@x.com a@x.com'' ''x.com'' = [''b@x.com'', ''a@x.com'']"
    by code_simp
  then show ?thesis
    by auto
qed

lemma scan_passes_bound:
  "snd (scan T d pos emails n) \<le> Suc n + (length T - pos) div Suc (length d)"
proof (induction T d pos emails n rule: scan.induct)
  case (1 T d pos emails n)
  let ?target = "CHR ''@'' # d"
  let ?L = "Suc (length d)"
  show ?case
  proof (cases "str_find T ?target pos")
    case None
    then show ?thesis
      by (simp add: scan_unfold_None)
  next
    case (Some p)
    note occ = str_find_Some [OF Some]
    from occ(1,2) have fits: "?L \<le> length T - pos" and le: "length T - (p + ?L) \<le> length T - pos - ?L"
      by simp_all
    have "Suc ((length T - (p + ?L)) div ?L) \<le> Suc ((length T - pos - ?L) div ?L)"
      using le by (simp add: div_le_mono)
    also have "\<dots> = (length T - pos) div ?L"
      using fits by (simp add: le_div_geq)
    finally have step: "Suc (Suc n) + (length T - (p + ?L)) div ?L \<le> Suc n + (length T - pos) div ?L"
      by simp
    let ?skip = "p + length ?target < length T \<and> T ! (p + length ?target) \<in> allowed_chars"
    show ?thesis
    proof (cases ?skip)
      case True
      from "1.IH"(1) [OF refl refl Some refl True] step show ?thesis
        by (simp only: scan_unfold_skip [OF Some True] length_Cons)
    next
      case False
      from "1.IH"(2) [OF refl refl Some refl False refl refl] step show ?thesis
        by (simp only: scan_unfold_take [OF Some False] length_Cons)
    qed
  qed
qed

lemma scan_passes_ge: "Suc n \<le> snd (scan T d pos emails n)"
proof (induction T d pos emails n rule: scan.induct)
  case (1 T d pos emails n)
  let ?target = "CHR ''@'' # d"
  show ?case
  proof (cases "str_find T ?target pos")
    case None
    then show ?thesis
      by (simp add: scan_unfold_None)
  next
    case (Some p)
    let ?skip = "p + length ?target < length T \<and> T ! (p + length ?target) \<in> allowed_chars"
    show ?thesis
    proof (cases ?skip)
      case True
      from "1.IH"(1) [OF refl refl Some refl True] show ?thesis
        by (simp add: scan_unfold_skip [OF Some True])
    next
      case False
      from "1.IH"(2) [OF refl refl Some refl False refl refl] show ?thesis
        by (simp add: scan_unfold_take [OF Some False])
    qed
  qed
qed

lemma str_remove_absent: "find_idx old s = None \<Longrightarrow> str_remove old s = s"
  by (induction s) (auto split: if_splits)

lemma str_remove_leading:
  assumes "old \<noteq> []" and "find_idx old r = None"
  shows "str_remove old (old @ r) = strip_leading old (old @ r)"
proof -
  from assms(1) obtain c cs where old: "old @ r = c # cs"
    by (cases old) auto
  have "prefix old (c # cs)"
    unfolding old [symmetric] by simp
  with assms(1) have "str_remove old (c # cs) = str_remove old (drop (length old) (c # cs))"
    by simp
  then have "str_remove old (old @ r) = str_remove old r"
    unfolding old [symmetric] by simp
  then show ?thesis
    by (simp add: strip_leading_def str_remove_absent [OF assms(2)])
qed

lemma extract_emails_www_same:
  "extract_emails T (''www.'' @ ''example.com'') = extract_emails T ''example.com''"
  by (simp add: extract_emails_def)

lemma extract_emails_superstring:
  "extract_emails ''contact: x@example.com.au'' ''example.com'' = []"
  by code_simp

text \<open>
  Claim C1. Every address that \<open>extract_emails\<close> returns is well anchored for the target
  that the code builds, \<open>"@" + domain.replace('www.', '')\<close> (lemma
  \<open>extract_emails_anchored\<close>), and the text \<open>contact: x@example.com.au\<close> yields nothing
  for \<open>example.com\<close> (lemma \<open>extract_emails_superstring\<close>). The target the claim names
  strips a leading \<open>www.\<close> only. For the domain \<open>mywww.example.com\<close> the two differ, and
  the code returns an address that does not end with \<open>@mywww.example.com\<close>.
\<close>

theorem extract_emails_inner_www:
  "extract_emails ''x@myexample.com'' ''mywww.example.com'' = [''x@myexample.com''] \<and>
   \<not> suffix (CHR ''@'' # strip_leading ''www.'' ''mywww.example.com'') ''x@myexample.com''"
  by code_simp

text \<open>
  Claim C2. The search target is \<open>"@"\<close> followed by the domain with every occurrence of
  \<open>www.\<close> removed, not with a leading \<open>www.\<close> stripped: for \<open>mywww.example.com\<close> the code
  searches for \<open>@myexample.com\<close>, and an address at the page's own domain is not found.
  On domains where \<open>www.\<close> occurs as a leading prefix only, or not at all, the two agree
  (lemmas \<open>str_remove_leading\<close>, \<open>str_remove_absent\<close>).
\<close>

theorem target_inner_www:
  "str_remove ''www.'' ''mywww.example.com'' = ''myexample.com'' \<and>
   strip_leading ''www.'' ''mywww.example.com'' = ''mywww.example.com'' \<and>
   extract_emails ''info@mywww.example.com'' ''mywww.example.com'' = []"
  by code_simp

text \<open>
  Claim C10, as amended. The scan loop is a total function (its termination proof is
  above: every pass that finds an occurrence at \<open>p \<ge> pos\<close> continues at
  \<open>p + len(target) \<le> len(text)\<close>, and \<open>len(target) \<ge> 1\<close>). Counting every pass through the
  loop body, the one that ends in \<open>break\<close> included, a call makes at least one pass and at
  most \<open>len(text) div len(target) + 1\<close> passes, hence at most \<open>len(text) + 1\<close>; the bound
  \<open>len(text)\<close> of the claim holds for the passes that find an occurrence.
\<close>

theorem extract_emails_passes:
  "(str_find T (CHR ''@'' # d) pos = None \<longrightarrow> scan T d pos emails n = (emails, Suc n)) \<and>
   (str_find T (CHR ''@'' # d) pos = Some p \<longrightarrow>
      pos + length (CHR ''@'' # d) \<le> p + length (CHR ''@'' # d) \<and>
      p + length (CHR ''@'' # d) \<le> length T \<and>
      (\<exists>emails'. scan T d pos emails n = scan T d (p + length (CHR ''@'' # d)) emails' (Suc n))) \<and>
   1 \<le> length (CHR ''@'' # str_remove ''www.'' D) \<and>
   1 \<le> extract_passes T D \<and>
   extract_passes T D \<le> length T div length (CHR ''@'' # str_remove ''www.'' D) + 1 \<and>
   extract_passes T D \<le> length T + 1"
proof -
  let ?d = "str_remove ''www.'' D"
  have up: "extract_passes T D \<le> length T div Suc (length ?d) + 1"
    using scan_passes_bound [of T ?d 0 "[]" 0] by (simp add: extract_passes_def)
  have "length T div Suc (length ?d) \<le> length T"
    by (rule div_le_dividend)
  with up have up': "extract_passes T D \<le> length T + 1"
    by linarith
  have low: "1 \<le> extract_passes T D"
    using scan_passes_ge [of 0 T ?d 0 "[]"] by (simp add: extract_passes_def)
  have step: "pos + length (CHR ''@'' # d) \<le> p + length (CHR ''@'' # d) \<and>
      p + length (CHR ''@'' # d) \<le> length T \<and>
      (\<exists>emails'. scan T d pos emails n = scan T d (p + length (CHR ''@'' # d)) emails' (Suc n))"
    if found: "str_find T (CHR ''@'' # d) pos = Some p"
  proof -
    note occ = str_find_Some [OF found]
    have "\<exists>emails'. scan T d pos emails n = scan T d (p + length (CHR ''@'' # d)) emails' (Suc n)"
    proof (cases "p + length (CHR ''@'' # d) < length T \<and> T ! (p + length (CHR ''@'' # d)) \<in> allowed_chars")
      case True
      from scan_unfold_skip [OF found True] show ?thesis ..
    next
      case False
      from scan_unfold_take [OF found False] show ?thesis ..
    qed
    with occ(1,2) show ?thesis
      by simp
  qed
  from scan_unfold_None [of T d pos emails n] step up up' low show ?thesis
    by simp
qed

text \<open>
  The claim as stated, "at most \<open>len(text)\<close> iterations", fails on the empty text, where
  the loop body runs once, and on \<open>@@@\<close> with the empty domain, where it runs four times.
\<close>

theorem extract_emails_passes_counterexample:
  "\<not> extract_passes [] ''example.com'' \<le> length ([] :: string) \<and>
   \<not> extract_passes ''@@@'' [] \<le> length ''@@@''"
  by code_simp

theorem extract_emails_passes_witness:
  "str_find ''a@x.com b@x.com'' (CHR ''@'' # ''x.com'') 0 = Some 1 \<and>
   1 + length (CHR ''@'' # ''x.com'') \<le> length ''a@x.com b@x.com'' \<and>
   str_find ''a@x.com b@x.com'' (CHR ''@'' # ''x.com'') 15 = None \<and>
   scan ''a@x.com b@x.com'' ''x.com'' 15 [''b@x.com'', ''a@x.com''] 2 = ([''b@x.com'', ''a@x.com''], 3) \<and>
   extract_passes ''a@x.com b@x.com'' ''x.com'' = 3 \<and>
   extract_passes ''a@x.com b@x.com'' ''x.com'' \<le> length ''a@x.com b@x.com'' div length ''@x.com'' + 1"
proof -
  have f: "str_find ''a@x.com b@x.com'' (CHR ''@'' # ''x.com'') 0 = Some 1"
    "str_find ''a@x.com b@x.com'' (CHR ''@'' # ''x.com'') 15 = None"
    by code_simp+
  have e: "extract_passes ''a@x.com b@x.com'' ''x.com'' = 3"
    "str_remove ''www.'' ''x.com'' = ''x.com''"
    by code_simp+
  note a = extract_emails_passes [of "''a@x.com b@x.com''" "''x.com''" 0 _ _ 1 "''x.com''"]
  note b = extract_emails_passes [of "''a@x.com b@x.com''" "''x.com''" 15 "[''b@x.com'', ''a@x.com'']" 2 _ "''x.com''"]
  from a f(1) have 1: "1 + length (CHR ''@'' # ''x.com'') \<le> length ''a@x.com b@x.com''"
    by blast
  from b f(2) have 2: "scan ''a@x.com b@x.com'' ''x.com'' 15 [''b@x.com'', ''a@x.com''] 2 = ([''b@x.com'', ''a@x.com''], 3)"
    by simp
  from a e have 3: "extract_passes ''a@x.com b@x.com'' ''x.com'' \<le> length ''a@x.com b@x.com'' div length ''@x.com'' + 1"
    by simp
  from f 1 2 e(1) 3 show ?thesis
    by (intro conjI)
qed

section \<open>The link prioritizer\<close>

subsection \<open>Library functions the prioritizer calls\<close>

text \<open>
  Character classes by code point: \<open>in_ranges n rs\<close> holds when \<open>n\<close> lies in one of the
  closed ranges of \<open>rs\<close>.
\<close>

definition code_point :: "char \<Rightarrow> nat" where
  "code_point c = of_char c"

definition in_ranges :: "nat \<Rightarrow> (nat \<times> nat) list \<Rightarrow> bool" where
  "in_ranges n rs = list_ex (\<lambda>(lo, hi). lo \<le> n \<and> n \<le> hi) rs"

text \<open>
  \<^verbatim>\<open>str.lower()\<close>: below code point 256 the characters that it changes are \<open>A\<close> to \<open>Z\<close>
  and the Latin-1 capitals U+00C0 to U+00D6 and U+00D8 to U+00DE; each goes to the code
  point 32 above it, and every other character stays.
\<close>

definition upper_ranges :: "(nat \<times> nat) list" where
  "upper_ranges = [(0x41, 0x5A), (0xC0, 0xD6), (0xD8, 0xDE)]"

definition lower_char :: "char \<Rightarrow> char" where
  "lower_char c = (if in_ranges (code_point c) upper_ranges then char_of (code_point c + 32) else c)"

definition lower :: "string \<Rightarrow> string" where
  "lower s = map lower_char s"

text \<open>
  The character classes of Python's \<^verbatim>\<open>re\<close> on \<^verbatim>\<open>str\<close>: \<open>is_alnum\<close> is \<^verbatim>\<open>str.isalnum()\<close> of
  one character, which below code point 256 holds of the ASCII digits and letters and of
  71 Latin-1 characters (letters such as U+00E9, the superscript digits, the fractions);
  \<open>is_word\<close> is \<^verbatim>\<open>\w\<close>, an alphanumeric character or the underscore.
\<close>

definition alnum_ranges :: "(nat \<times> nat) list" where
  "alnum_ranges =
     [(0x30, 0x39), (0x41, 0x5A), (0x61, 0x7A), (0xAA, 0xAA), (0xB2, 0xB3), (0xB5, 0xB5),
      (0xB9, 0xBA), (0xBC, 0xBE), (0xC0, 0xD6), (0xD8, 0xF6), (0xF8, 0xFF)]"

definition is_alnum :: "char \<Rightarrow> bool" where
  "is_alnum c = in_ranges (code_point c) alnum_ranges"

definition is_word :: "char \<Rightarrow> bool" where
  "is_word c = (is_alnum c \<or> c = CHR ''_'')"

text \<open>
  The assertion \<^verbatim>\<open>\b\<close> at index \<open>i\<close> of \<open>s\<close>: exactly one of the characters before and
  after the position is a word character, where the start and the end of the string count
  as non-word characters.
\<close>

definition at_boundary :: "string \<Rightarrow> nat \<Rightarrow> bool" where
  "at_boundary s i = ((0 < i \<and> is_word (s ! (i - 1))) \<noteq> (i < length s \<and> is_word (s ! i)))"

text \<open>
  \<^verbatim>\<open>re.search(rf'\b{re.escape(kw)}\b', s)\<close> finds a match: the pattern is \<^verbatim>\<open>\b\<close>, the
  literal \<open>kw\<close> (that is what \<^verbatim>\<open>re.escape\<close> makes of it), \<^verbatim>\<open>\b\<close>, and the search tries
  every start index of \<open>s\<close>.
\<close>

definition word_match_at :: "string \<Rightarrow> string \<Rightarrow> nat \<Rightarrow> bool" where
  "word_match_at kw s i =
     (at_boundary s i \<and> i + length kw \<le> length s \<and> take (length kw) (drop i s) = kw \<and>
      at_boundary s (i + length kw))"

definition re_search_word :: "string \<Rightarrow> string \<Rightarrow> bool" where
  "re_search_word kw s = list_ex (word_match_at kw s) [0..<Suc (length s)]"

text \<open>
  \<^verbatim>\<open>urlparse\<close> belongs to Python's standard library. The development takes it as a
  parameter \<open>urlparse\<close> of every function that calls it; of its result the code reads the
  components \<open>netloc\<close> and \<open>path\<close>.
\<close>

record parsed_url =
  netloc :: string
  path :: string

text \<open>What \<^verbatim>\<open>urlparse\<close> returns on a URL that consists of a path only, such as \<^verbatim>\<open>/about\<close>.\<close>

definition bare_path :: "string \<Rightarrow> parsed_url" where
  "bare_path u = \<lparr>netloc = [], path = u\<rparr>"

subsection \<open>\<^verbatim>\<open>prioritize_links\<close>\<close>

text \<open>A link as the link extractor returns it; the prioritizer reads its \<^verbatim>\<open>url\<close>.\<close>

record link =
  link_url :: string

text \<open>
  \<^verbatim>\<open>for index, keyword in enumerate(priority_keywords): if P(keyword): return index\<close>,
  with \<open>None\<close> when the loop runs to its end.
\<close>

fun first_index :: "('a \<Rightarrow> bool) \<Rightarrow> 'a list \<Rightarrow> nat \<Rightarrow> nat option" where
  "first_index P [] index = None"
| "first_index P (keyword # keywords) index =
     (if P keyword then Some index else first_index P keywords (Suc index))"

text \<open>
  \<^verbatim>\<open>priority_score(link)\<close>. The score is a Python \<^verbatim>\<open>int\<close> or \<^verbatim>\<open>float('inf')\<close>; both are
  values of \<open>enat\<close>, ordered as Python compares them.
\<close>

definition priority_score :: "(string \<Rightarrow> parsed_url) \<Rightarrow> string list \<Rightarrow> link \<Rightarrow> enat" where
  "priority_score urlparse priority_keywords l =
     (let p = lower (path (urlparse (link_url l))) in
      case first_index (\<lambda>keyword. re_search_word (lower keyword) p) priority_keywords 0 of
        Some index \<Rightarrow> enat index
      | None \<Rightarrow>
          (case first_index (\<lambda>keyword. str_contains (lower keyword) p) priority_keywords 0 of
             Some index \<Rightarrow> enat (index + length priority_keywords)
           | None \<Rightarrow> \<infinity>))"

text \<open>
  \<^verbatim>\<open>sorted(links, key=priority_score)\<close>. Python's \<^verbatim>\<open>sorted\<close> is a stable ascending sort;
  \<open>sort_key\<close> is one as well, and a stable sorted permutation of a list is unique
  (\<open>properties_for_sort_key\<close>), so both return the same list.
\<close>

definition prioritize_links :: "(string \<Rightarrow> parsed_url) \<Rightarrow> link list \<Rightarrow> string list \<Rightarrow> link list" where
  "prioritize_links urlparse links priority_keywords =
     sort_key (priority_score urlparse priority_keywords) links"

text \<open>The two tests of \<^verbatim>\<open>priority_score\<close>, for one link and one keyword.\<close>

definition whole_word_match :: "(string \<Rightarrow> parsed_url) \<Rightarrow> link \<Rightarrow> string \<Rightarrow> bool" where
  "whole_word_match urlparse l keyword =
     re_search_word (lower keyword) (lower (path (urlparse (link_url l))))"

definition partial_match :: "(string \<Rightarrow> parsed_url) \<Rightarrow> link \<Rightarrow> string \<Rightarrow> bool" where
  "partial_match urlparse l keyword =
     str_contains (lower keyword) (lower (path (urlparse (link_url l))))"

text \<open>
  \<open>bounded_occurrence inner s kw i\<close>: \<open>kw\<close> stands in \<open>s\<close> at index \<open>i\<close>, and the characters
  of \<open>s\<close> next to it on either side, where there are any, are not \<open>inner\<close> ones.
  \<open>alnum_bounded_word\<close> is the whole-word test in the words of the specification: an
  occurrence bounded on both sides by a non-alphanumeric character or by the start or end
  of the path.
\<close>

definition bounded_occurrence :: "(char \<Rightarrow> bool) \<Rightarrow> string \<Rightarrow> string \<Rightarrow> nat \<Rightarrow> bool" where
  "bounded_occurrence inner s kw i =
     (occurs_at s i kw \<and> (i = 0 \<or> \<not> inner (s ! (i - 1))) \<and>
      (i + length kw = length s \<or> \<not> inner (s ! (i + length kw))))"

definition alnum_bounded_word :: "string \<Rightarrow> string \<Rightarrow> bool" where
  "alnum_bounded_word kw s = list_ex (bounded_occurrence is_alnum s kw) [0..<Suc (length s)]"

subsection \<open>The whole-word test\<close>

lemma re_search_word_iff:
  "re_search_word kw s \<longleftrightarrow> (\<exists>i. word_match_at kw s i)"
proof
  assume "re_search_word kw s"
  then show "\<exists>i. word_match_at kw s i"
    by (auto simp: re_search_word_def list_ex_iff)
next
  assume "\<exists>i. word_match_at kw s i"
  then obtain i where i: "word_match_at kw s i" ..
  then have "i + length kw \<le> length s"
    by (simp add: word_match_at_def)
  then have "i \<in> set [0..<Suc (length s)]"
    by auto
  with i show "re_search_word kw s"
    unfolding re_search_word_def list_ex_iff by blast
qed

lemma alnum_bounded_word_iff:
  "alnum_bounded_word kw s \<longleftrightarrow> (\<exists>i. bounded_occurrence is_alnum s kw i)"
proof
  assume "alnum_bounded_word kw s"
  then show "\<exists>i. bounded_occurrence is_alnum s kw i"
    by (auto simp: alnum_bounded_word_def list_ex_iff)
next
  assume "\<exists>i. bounded_occurrence is_alnum s kw i"
  then obtain i where i: "bounded_occurrence is_alnum s kw i" ..
  then have "i + length kw \<le> length s"
    by (simp add: bounded_occurrence_def occurs_at_def)
  then have "i \<in> set [0..<Suc (length s)]"
    by auto
  with i show "alnum_bounded_word kw s"
    unfolding alnum_bounded_word_def list_ex_iff by blast
qed

lemma occurs_at_ends:
  assumes "occurs_at s i kw" and "kw \<noteq> []"
  shows "i < length s" and "s ! i = hd kw" and "s ! (i + length kw - 1) = last kw"
proof -
  from assms have len: "0 < length kw" "i + length kw \<le> length s"
    and kw: "kw = take (length kw) (drop i s)"
    by (simp_all add: occurs_at_def)
  from len show "i < length s" by linarith
  have "hd kw = kw ! 0"
    using assms(2) by (simp add: hd_conv_nth)
  also have "\<dots> = take (length kw) (drop i s) ! 0"
    using kw by simp
  also have "\<dots> = s ! i"
    using len by simp
  finally show "s ! i = hd kw" ..
  have "last kw = kw ! (length kw - 1)"
    using assms(2) by (simp add: last_conv_nth)
  also have "\<dots> = take (length kw) (drop i s) ! (length kw - 1)"
    using kw by simp
  also have "\<dots> = s ! (i + (length kw - 1))"
    using len by simp
  finally show "s ! (i + length kw - 1) = last kw"
    using len by simp
qed

lemma word_match_at_iff:
  assumes "kw \<noteq> []"
  shows "word_match_at kw s i \<longleftrightarrow>
     occurs_at s i kw \<and>
     (is_word (hd kw) \<noteq> (0 < i \<and> is_word (s ! (i - 1)))) \<and>
     (is_word (last kw) \<noteq> (i + length kw < length s \<and> is_word (s ! (i + length kw))))"
proof (cases "occurs_at s i kw")
  case False
  then show ?thesis
    by (auto simp: word_match_at_def occurs_at_def)
next
  case True
  note e = occurs_at_ends [OF True assms]
  from assms have pos: "0 < i + length kw" by simp
  have b1: "at_boundary s i \<longleftrightarrow> (is_word (hd kw) \<noteq> (0 < i \<and> is_word (s ! (i - 1))))"
    using e(1,2) by (auto simp: at_boundary_def)
  have b2: "at_boundary s (i + length kw) \<longleftrightarrow>
     (is_word (last kw) \<noteq> (i + length kw < length s \<and> is_word (s ! (i + length kw))))"
    using e(3) pos by (auto simp: at_boundary_def)
  from True show ?thesis
    by (simp add: word_match_at_def b1 b2 occurs_at_def)
qed

text \<open>
  Claim C6, as amended. For every link and every keyword, the empty one included, the
  whole-word check succeeds exactly when the lower-cased keyword occurs in the lower-cased
  URL path with a word boundary (\<^verbatim>\<open>\b\<close>) at both of its ends: a position is a word
  boundary when exactly one of the characters before and after it is a word character,
  where a word character is an alphanumeric character or the underscore, and the start
  and the end of the path count as non-word characters. For a non-empty keyword this
  says that at each end exactly one of the keyword's end character and the path character
  just outside it is a word character; and for a keyword that begins and ends with a word
  character it says that the occurrence is bounded on both sides by a character that is
  not a word character (slash, hyphen, dot, etc., but not the underscore) or by the start
  or end of the path.
\<close>

theorem whole_word_match_boundaries:
  "(whole_word_match urlparse l keyword \<longleftrightarrow>
      (\<exists>i. occurs_at (lower (path (urlparse (link_url l)))) i (lower keyword) \<and>
         at_boundary (lower (path (urlparse (link_url l)))) i \<and>
         at_boundary (lower (path (urlparse (link_url l)))) (i + length (lower keyword)))) \<and>
   (keyword \<noteq> [] \<longrightarrow>
      (whole_word_match urlparse l keyword \<longleftrightarrow>
         (\<exists>i. occurs_at (lower (path (urlparse (link_url l)))) i (lower keyword) \<and>
            (is_word (hd (lower keyword)) \<noteq>
               (0 < i \<and> is_word (lower (path (urlparse (link_url l))) ! (i - 1)))) \<and>
            (is_word (last (lower keyword)) \<noteq>
               (i + length (lower keyword) < length (lower (path (urlparse (link_url l)))) \<and>
                is_word (lower (path (urlparse (link_url l))) ! (i + length (lower keyword)))))))) \<and>
   (keyword \<noteq> [] \<and> is_word (hd (lower keyword)) \<and> is_word (last (lower keyword)) \<longrightarrow>
      (whole_word_match urlparse l keyword \<longleftrightarrow>
         (\<exists>i. bounded_occurrence is_word (lower (path (urlparse (link_url l)))) (lower keyword) i)))"
proof -
  let ?p = "lower (path (urlparse (link_url l)))"
  let ?kw = "lower keyword"
  have every: "whole_word_match urlparse l keyword \<longleftrightarrow>
      (\<exists>i. occurs_at ?p i ?kw \<and> at_boundary ?p i \<and> at_boundary ?p (i + length ?kw))"
    unfolding whole_word_match_def re_search_word_iff
    by (auto simp: word_match_at_def occurs_at_def)
  have ends: "whole_word_match urlparse l keyword \<longleftrightarrow>
      (\<exists>i. occurs_at ?p i ?kw \<and>
         (is_word (hd ?kw) \<noteq> (0 < i \<and> is_word (?p ! (i - 1)))) \<and>
         (is_word (last ?kw) \<noteq> (i + length ?kw < length ?p \<and> is_word (?p ! (i + length ?kw)))))"
    if "keyword \<noteq> []"
  proof -
    from that have ne: "?kw \<noteq> []"
      by (simp add: lower_def)
    show ?thesis
      unfolding whole_word_match_def re_search_word_iff word_match_at_iff [OF ne] ..
  qed
  have simple: "whole_word_match urlparse l keyword \<longleftrightarrow> (\<exists>i. bounded_occurrence is_word ?p ?kw i)"
    if w: "keyword \<noteq> [] \<and> is_word (hd ?kw) \<and> is_word (last ?kw)"
  proof -
    have "bounded_occurrence is_word ?p ?kw i \<longleftrightarrow>
          occurs_at ?p i ?kw \<and>
          (is_word (hd ?kw) \<noteq> (0 < i \<and> is_word (?p ! (i - 1)))) \<and>
          (is_word (last ?kw) \<noteq> (i + length ?kw < length ?p \<and> is_word (?p ! (i + length ?kw))))" for i
      using w by (auto simp: bounded_occurrence_def occurs_at_def)
    with ends w show ?thesis
      by simp
  qed
  from every ends simple show ?thesis
    by blast
qed

theorem whole_word_match_boundaries_witness:
  "''about'' \<noteq> [] \<and> is_word (hd (lower ''about'')) \<and> is_word (last (lower ''about'')) \<and>
   whole_word_match bare_path \<lparr>link_url = ''/About-Us''\<rparr> ''about'' \<and>
   bounded_occurrence is_word (lower (path (bare_path ''/About-Us''))) (lower ''about'') 1"
proof -
  have w: "''about'' \<noteq> [] \<and> is_word (hd (lower ''about'')) \<and> is_word (last (lower ''about''))"
    by code_simp
  have b: "bounded_occurrence is_word (lower (path (bare_path ''/About-Us''))) (lower ''about'') 1"
    by code_simp
  then have "\<exists>i. bounded_occurrence is_word (lower (path (bare_path (link_url \<lparr>link_url = ''/About-Us''\<rparr>)))) (lower ''about'') i"
    by auto
  with whole_word_match_boundaries [of bare_path "\<lparr>link_url = ''/About-Us''\<rparr>" "''about''"] w
  have "whole_word_match bare_path \<lparr>link_url = ''/About-Us''\<rparr> ''about''"
    by blast
  with w b show ?thesis
    by blast
qed

text \<open>
  The claim as stated counts the underscore among the bounding characters and asks for a
  non-alphanumeric neighbour whatever the keyword is. In \<^verbatim>\<open>/about_us\<close> the keyword
  \<open>about\<close> is bounded by \<open>/\<close> and \<open>_\<close>, and the check fails; in \<^verbatim>\<open>/about-us\<close> the keyword
  \<open>-us\<close> follows the letter \<open>t\<close>, and the check succeeds.
\<close>

theorem whole_word_match_counterexample:
  "\<not> whole_word_match bare_path \<lparr>link_url = ''/about_us''\<rparr> ''about'' \<and>
   alnum_bounded_word (lower ''about'') (lower (path (bare_path ''/about_us''))) \<and>
   whole_word_match bare_path \<lparr>link_url = ''/about-us''\<rparr> ''-us'' \<and>
   \<not> alnum_bounded_word (lower ''-us'') (lower (path (bare_path ''/about-us'')))"
  by code_simp

text \<open>
  The character classes beyond ASCII, and the empty keyword: \<open>about\<close> is not a whole word
  in the path \<^verbatim>\<open>/caf\<close>, U+00E9, \<^verbatim>\<open>about\<close>, since U+00E9 is a letter; U+00C9 is lower-cased
  to U+00E9; and the empty keyword is a whole word in a path exactly when the path has a
  word character.
\<close>

lemma whole_word_match_latin1:
  "\<not> whole_word_match bare_path \<lparr>link_url = ''/caf'' @ [CHR 0xE9] @ ''about''\<rparr> ''about'' \<and>
   is_word (CHR 0xE9) \<and> \<not> is_word (CHR 0xD7) \<and>
   lower (''/'' @ [CHR 0xC9]) = ''/'' @ [CHR 0xE9] \<and>
   lower [CHR 0xDF, CHR 0xD7, CHR 0xFF] = [CHR 0xDF, CHR 0xD7, CHR 0xFF]"
  by code_simp

lemma whole_word_match_empty_keyword:
  "\<not> whole_word_match bare_path \<lparr>link_url = ''/''\<rparr> [] \<and>
   whole_word_match bare_path \<lparr>link_url = ''/a''\<rparr> []"
  by code_simp

subsection \<open>Scores and order\<close>

lemma first_index_None_iff: "first_index P ks n = None \<longleftrightarrow> (\<forall>k\<in>set ks. \<not> P k)"
  by (induction ks arbitrary: n) auto

lemma first_index_Some_iff:
  "first_index P ks n = Some j \<longleftrightarrow>
     (\<exists>i<length ks. j = n + i \<and> P (ks ! i) \<and> (\<forall>m<i. \<not> P (ks ! m)))"
proof (induction ks arbitrary: n)
  case Nil
  show ?case by simp
next
  case (Cons k ks)
  show ?case
  proof (cases "P k")
    case True
    have "(\<exists>i<length (k # ks). j = n + i \<and> P ((k # ks) ! i) \<and> (\<forall>m<i. \<not> P ((k # ks) ! m))) \<longleftrightarrow> j = n"
    proof
      assume "\<exists>i<length (k # ks). j = n + i \<and> P ((k # ks) ! i) \<and> (\<forall>m<i. \<not> P ((k # ks) ! m))"
      then obtain i where i: "j = n + i" "\<forall>m<i. \<not> P ((k # ks) ! m)" by blast
      from i(2) True have "i = 0" by (cases i) auto
      with i(1) show "j = n" by simp
    next
      assume "j = n"
      with True show "\<exists>i<length (k # ks). j = n + i \<and> P ((k # ks) ! i) \<and> (\<forall>m<i. \<not> P ((k # ks) ! m))"
        by (intro exI [of _ 0]) simp
    qed
    with True show ?thesis by auto
  next
    case False
    have "(\<exists>i<length (k # ks). j = n + i \<and> P ((k # ks) ! i) \<and> (\<forall>m<i. \<not> P ((k # ks) ! m))) \<longleftrightarrow>
          (\<exists>i<length ks. j = Suc n + i \<and> P (ks ! i) \<and> (\<forall>m<i. \<not> P (ks ! m)))"
      (is "?L \<longleftrightarrow> ?R")
    proof
      assume ?L
      then obtain i where i: "i < length (k # ks)" "j = n + i" "P ((k # ks) ! i)" "\<forall>m<i. \<not> P ((k # ks) ! m)"
        by blast
      from i(3) False obtain i' where i': "i = Suc i'" by (cases i) auto
      have "\<forall>m<i'. \<not> P (ks ! m)"
      proof (intro allI impI)
        fix m assume "m < i'"
        then have "Suc m < i" by (simp add: i')
        with i(4) have "\<not> P ((k # ks) ! Suc m)" by blast
        then show "\<not> P (ks ! m)" by simp
      qed
      with i i' show ?R by (intro exI [of _ i']) simp
    next
      assume ?R
      then obtain i where i: "i < length ks" "j = Suc n + i" "P (ks ! i)" "\<forall>m<i. \<not> P (ks ! m)"
        by blast
      have "\<forall>m<Suc i. \<not> P ((k # ks) ! m)"
      proof (intro allI impI)
        fix m assume m: "m < Suc i"
        show "\<not> P ((k # ks) ! m)"
        proof (cases m)
          case 0
          with False show ?thesis by simp
        next
          case (Suc m')
          with m i(4) show ?thesis by simp
        qed
      qed
      with i show ?L by (intro exI [of _ "Suc i"]) simp
    qed
    with False Cons.IH [of "Suc n"] show ?thesis by simp
  qed
qed

lemma first_index_first:
  assumes "i < length ks" and "P (ks ! i)" and "\<forall>m<i. \<not> P (ks ! m)"
  shows "first_index P ks 0 = Some i"
  using assms by (subst first_index_Some_iff) auto

lemma priority_score_alt:
  "priority_score urlparse kws l =
     (case first_index (whole_word_match urlparse l) kws 0 of
        Some index \<Rightarrow> enat index
      | None \<Rightarrow>
          (case first_index (partial_match urlparse l) kws 0 of
             Some index \<Rightarrow> enat (index + length kws)
           | None \<Rightarrow> \<infinity>))"
  unfolding priority_score_def Let_def whole_word_match_def [abs_def] partial_match_def [abs_def] ..

lemma score_whole:
  assumes "i < length kws" and "whole_word_match urlparse l (kws ! i)"
    and "\<forall>m<i. \<not> whole_word_match urlparse l (kws ! m)"
  shows "priority_score urlparse kws l = enat i"
  by (simp add: priority_score_alt first_index_first [OF assms])

lemma score_partial:
  assumes "\<forall>k\<in>set kws. \<not> whole_word_match urlparse l k"
    and "i < length kws" and "partial_match urlparse l (kws ! i)"
    and "\<forall>m<i. \<not> partial_match urlparse l (kws ! m)"
  shows "priority_score urlparse kws l = enat (i + length kws)"
proof -
  from assms(1) have "first_index (whole_word_match urlparse l) kws 0 = None"
    by (simp add: first_index_None_iff)
  then show ?thesis
    by (simp add: priority_score_alt first_index_first [OF assms(2-4)])
qed

lemma score_none:
  assumes "\<forall>k\<in>set kws. \<not> whole_word_match urlparse l k \<and> \<not> partial_match urlparse l k"
  shows "priority_score urlparse kws l = \<infinity>"
proof -
  from assms have "first_index (whole_word_match urlparse l) kws 0 = None"
    "first_index (partial_match urlparse l) kws 0 = None"
    by (simp_all add: first_index_None_iff)
  then show ?thesis
    by (simp add: priority_score_alt)
qed

lemma score_whole_lt:
  assumes "\<exists>k\<in>set kws. whole_word_match urlparse l k"
  shows "priority_score urlparse kws l < enat (length kws)"
proof -
  from assms have "first_index (whole_word_match urlparse l) kws 0 \<noteq> None"
    by (simp add: first_index_None_iff)
  then obtain j where j: "first_index (whole_word_match urlparse l) kws 0 = Some j"
    by auto
  then have "j < length kws"
    by (auto simp: first_index_Some_iff)
  with j show ?thesis
    by (simp add: priority_score_alt)
qed

lemma score_not_whole_ge:
  assumes "\<forall>k\<in>set kws. \<not> whole_word_match urlparse l k"
  shows "enat (length kws) \<le> priority_score urlparse kws l"
proof -
  from assms have "first_index (whole_word_match urlparse l) kws 0 = None"
    by (simp add: first_index_None_iff)
  then show ?thesis
    by (simp add: priority_score_alt split: option.split)
qed

lemma sorted_prioritize:
  "sorted (map (priority_score urlparse kws) (prioritize_links urlparse links kws))"
  by (simp add: prioritize_links_def)

lemma unmatched_last:
  assumes "i < j" and "j < length (prioritize_links urlparse links kws)"
    and "priority_score urlparse kws (prioritize_links urlparse links kws ! i) = \<infinity>"
  shows "priority_score urlparse kws (prioritize_links urlparse links kws ! j) = \<infinity>"
proof -
  let ?r = "prioritize_links urlparse links kws"
  from assms(1,2) have "map (priority_score urlparse kws) ?r ! i \<le> map (priority_score urlparse kws) ?r ! j"
    by (intro sorted_nth_mono [OF sorted_prioritize]) simp_all
  with assms show ?thesis
    by simp
qed

text \<open>
  Claim C7. The first keyword, in the given order, that whole-word-matches the path gives
  the score its index; when none does, the first keyword contained in the path gives its
  index plus the number of keywords; a link with a whole-word match scores strictly less
  than any link without one; when no keyword matches at all the score is infinity, and in
  the result nothing but such links follows such a link; and on the paths \<^verbatim>\<open>/about\<close>,
  \<^verbatim>\<open>/network\<close> with the keywords \<open>work\<close>, \<open>about\<close> the result is \<^verbatim>\<open>/about\<close>, \<^verbatim>\<open>/network\<close>.
\<close>

theorem priority_score_cases:
  "(i < length kws \<and> whole_word_match urlparse l (kws ! i) \<and>
      (\<forall>m<i. \<not> whole_word_match urlparse l (kws ! m)) \<longrightarrow>
      priority_score urlparse kws l = enat i) \<and>
   ((\<forall>k\<in>set kws. \<not> whole_word_match urlparse l k) \<and> i < length kws \<and>
      partial_match urlparse l (kws ! i) \<and> (\<forall>m<i. \<not> partial_match urlparse l (kws ! m)) \<longrightarrow>
      priority_score urlparse kws l = enat (i + length kws)) \<and>
   ((\<exists>k\<in>set kws. whole_word_match urlparse l k) \<and>
      (\<forall>k\<in>set kws. \<not> whole_word_match urlparse l' k) \<longrightarrow>
      priority_score urlparse kws l < priority_score urlparse kws l') \<and>
   ((\<forall>k\<in>set kws. \<not> whole_word_match urlparse l k \<and> \<not> partial_match urlparse l k) \<longrightarrow>
      priority_score urlparse kws l = \<infinity>) \<and>
   (a < b \<and> b < length (prioritize_links urlparse links kws) \<and>
      priority_score urlparse kws (prioritize_links urlparse links kws ! a) = \<infinity> \<longrightarrow>
      priority_score urlparse kws (prioritize_links urlparse links kws ! b) = \<infinity>) \<and>
   map link_url (prioritize_links bare_path [\<lparr>link_url = ''/about''\<rparr>, \<lparr>link_url = ''/network''\<rparr>]
      [''work'', ''about'']) = [''/about'', ''/network'']"
proof -
  have ex: "map link_url (prioritize_links bare_path [\<lparr>link_url = ''/about''\<rparr>, \<lparr>link_url = ''/network''\<rparr>]
      [''work'', ''about'']) = [''/about'', ''/network'']"
    by code_simp
  have lt: "priority_score urlparse kws l < priority_score urlparse kws l'"
    if "\<exists>k\<in>set kws. whole_word_match urlparse l k" "\<forall>k\<in>set kws. \<not> whole_word_match urlparse l' k"
    using score_whole_lt [OF that(1)] score_not_whole_ge [OF that(2)] by simp
  from ex lt score_whole score_partial score_none unmatched_last show ?thesis
    by (intro conjI impI) blast+
qed

theorem priority_score_cases_witness:
  "priority_score bare_path [''work'', ''about''] \<lparr>link_url = ''/about''\<rparr> = enat 1 \<and>
   priority_score bare_path [''work'', ''about''] \<lparr>link_url = ''/network''\<rparr> = enat (0 + 2) \<and>
   priority_score bare_path [''work'', ''about''] \<lparr>link_url = ''/about''\<rparr>
     < priority_score bare_path [''work'', ''about''] \<lparr>link_url = ''/network''\<rparr> \<and>
   priority_score bare_path [''work'', ''about''] \<lparr>link_url = ''/random''\<rparr> = \<infinity>"
proof -
  let ?kws = "[''work'', ''about'']"
  let ?about = "\<lparr>link_url = ''/about''\<rparr>"
  let ?network = "\<lparr>link_url = ''/network''\<rparr>"
  let ?random = "\<lparr>link_url = ''/random''\<rparr>"
  have a: "\<not> whole_word_match bare_path ?about ''work''" "whole_word_match bare_path ?about ''about''"
    by code_simp+
  have n: "\<not> whole_word_match bare_path ?network ''work''" "\<not> whole_word_match bare_path ?network ''about''"
    "partial_match bare_path ?network ''work''"
    by code_simp+
  have r: "\<not> whole_word_match bare_path ?random ''work''" "\<not> whole_word_match bare_path ?random ''about''"
    "\<not> partial_match bare_path ?random ''work''" "\<not> partial_match bare_path ?random ''about''"
    by code_simp+
  have h1: "1 < length ?kws \<and> whole_word_match bare_path ?about (?kws ! 1) \<and>
      (\<forall>m<1. \<not> whole_word_match bare_path ?about (?kws ! m))"
    using a by simp
  have h2: "(\<forall>k\<in>set ?kws. \<not> whole_word_match bare_path ?network k) \<and> 0 < length ?kws \<and>
      partial_match bare_path ?network (?kws ! 0) \<and> (\<forall>m<0. \<not> partial_match bare_path ?network (?kws ! m))"
    using n by simp
  have h3: "(\<exists>k\<in>set ?kws. whole_word_match bare_path ?about k) \<and>
      (\<forall>k\<in>set ?kws. \<not> whole_word_match bare_path ?network k)"
    using a n by simp
  have h4: "\<forall>k\<in>set ?kws. \<not> whole_word_match bare_path ?random k \<and> \<not> partial_match bare_path ?random k"
    using r by simp
  from h1 priority_score_cases [where i = 1 and kws = ?kws and urlparse = bare_path and l = ?about]
  have 1: "priority_score bare_path ?kws ?about = enat 1"
    by blast
  from h2 priority_score_cases [where i = 0 and kws = ?kws and urlparse = bare_path and l = ?network]
  have 2: "priority_score bare_path ?kws ?network = enat (0 + 2)"
    by simp
  from h3 priority_score_cases [where kws = ?kws and urlparse = bare_path and l = ?about and l' = ?network]
  have 3: "priority_score bare_path ?kws ?about < priority_score bare_path ?kws ?network"
    by blast
  from h4 priority_score_cases [where kws = ?kws and urlparse = bare_path and l = ?random]
  have 4: "priority_score bare_path ?kws ?random = \<infinity>"
    by blast
  from 1 2 3 4 show ?thesis
    by (intro conjI)
qed

text \<open>
  Claim C8. The result of \<open>prioritize_links\<close> is a permutation of the links, sorted
  ascending by score, in which the links of every score (infinity included) keep their
  input order; with no keywords the links come back as they are, and no links give none.
\<close>

theorem prioritize_links_stable_sort:
  "mset (prioritize_links urlparse links kws) = mset links \<and>
   sorted (map (priority_score urlparse kws) (prioritize_links urlparse links kws)) \<and>
   (\<forall>k. filter (\<lambda>l. priority_score urlparse kws l = k) (prioritize_links urlparse links kws) =
        filter (\<lambda>l. priority_score urlparse kws l = k) links) \<and>
   prioritize_links urlparse links [] = links \<and>
   prioritize_links urlparse [] kws = []"
proof -
  have "priority_score urlparse [] = (\<lambda>l. \<infinity>)"
    by (rule ext) (simp add: priority_score_def)
  then have "prioritize_links urlparse links [] = links"
    by (simp add: prioritize_links_def sort_key_const)
  then show ?thesis
    by (simp add: prioritize_links_def sort_key_stable)
qed

theorem prioritize_links_stable_sort_witness:
  "map link_url (prioritize_links bare_path
      [\<lparr>link_url = ''/random''\<rparr>, \<lparr>link_url = ''/about''\<rparr>, \<lparr>link_url = ''/other''\<rparr>]
      [''about'', ''work'']) = [''/about'', ''/random'', ''/other''] \<and>
   mset (prioritize_links bare_path
      [\<lparr>link_url = ''/random''\<rparr>, \<lparr>link_url = ''/about''\<rparr>, \<lparr>link_url = ''/other''\<rparr>]
      [''about'', ''work'']) =
     mset [\<lparr>link_url = ''/random''\<rparr>, \<lparr>link_url = ''/about''\<rparr>, \<lparr>link_url = ''/other''\<rparr>] \<and>
   prioritize_links bare_path [\<lparr>link_url = ''/about''\<rparr>, \<lparr>link_url = ''/work''\<rparr>] [] =
     [\<lparr>link_url = ''/about''\<rparr>, \<lparr>link_url = ''/work''\<rparr>]"
proof -
  have "map link_url (prioritize_links bare_path
      [\<lparr>link_url = ''/random''\<rparr>, \<lparr>link_url = ''/about''\<rparr>, \<lparr>link_url = ''/other''\<rparr>]
      [''about'', ''work'']) = [''/about'', ''/random'', ''/other'']"
    by code_simp
  with prioritize_links_stable_sort [of bare_path
      "[\<lparr>link_url = ''/random''\<rparr>, \<lparr>link_url = ''/about''\<rparr>, \<lparr>link_url = ''/other''\<rparr>]"
      "[''about'', ''work'']"]
    prioritize_links_stable_sort [of bare_path "[\<lparr>link_url = ''/about''\<rparr>, \<lparr>link_url = ''/work''\<rparr>]" "[]"]
  show ?thesis
    by blast
qed

section \<open>The crawl controller\<close>

subsection \<open>Seed URLs\<close>

text \<open>\<^verbatim>\<open>url.startswith((p1, p2, ...))\<close>.\<close>

definition startswith_any :: "string \<Rightarrow> string list \<Rightarrow> bool" where
  "startswith_any s ps = list_ex (\<lambda>p. prefix p s) ps"

text \<open>
  \<^verbatim>\<open>ensure_urls_valid(urls)\<close>: the loop appends one URL to \<^verbatim>\<open>valid_urls\<close> for every
  input URL.
\<close>

fun ensure_loop :: "string list \<Rightarrow> string list \<Rightarrow> string list" where
  "ensure_loop [] valid_urls = valid_urls"
| "ensure_loop (url # urls) valid_urls =
     ensure_loop urls
       (valid_urls @
          [if \<not> startswith_any url [''http://'', ''https://''] then ''https://'' @ url else url])"

definition ensure_urls_valid :: "string list \<Rightarrow> string list" where
  "ensure_urls_valid urls = ensure_loop urls []"

text \<open>
  Seed normalization in the words of the specification: a URL with no recognized scheme
  prefix gets \<^verbatim>\<open>https://\<close> in front, any other URL is returned unchanged. The recognized
  prefixes are \<^verbatim>\<open>http://\<close> and \<^verbatim>\<open>https://\<close>.
\<close>

definition has_scheme :: "string \<Rightarrow> bool" where
  "has_scheme url = (prefix ''http://'' url \<or> prefix ''https://'' url)"

definition normalize_seed :: "string \<Rightarrow> string" where
  "normalize_seed url = (if has_scheme url then url else ''https://'' @ url)"

subsection \<open>The spider\<close>

text \<open>\<^verbatim>\<open>domain(url)\<close>.\<close>

definition domain :: "(string \<Rightarrow> parsed_url) \<Rightarrow> string \<Rightarrow> string" where
  "domain urlparse url = netloc (urlparse url)"

text \<open>
  The objects that pass between the spider and the crawling runtime. A request as the
  spider creates it has a URL, a priority (0 unless given) and the entry \<^verbatim>\<open>origin_domain\<close>
  of its \<^verbatim>\<open>meta\<close>. A response has the URL of the page that was fetched (after redirects it
  differs from the URL of the request), the page text, the \<^verbatim>\<open>meta\<close> entries
  \<^verbatim>\<open>origin_domain\<close> and \<^verbatim>\<open>depth\<close> (\<open>None\<close> when the entry is absent), and \<open>resp_links\<close>,
  the list that the link extractor returns on it: the runtime's link extractor does the
  HTML parsing, the same-domain filter and the removal of fragments.
\<close>

record request =
  req_url :: string
  req_priority :: int
  req_origin_domain :: string

record response =
  resp_url :: string
  resp_text :: string
  resp_origin_domain :: string
  resp_depth :: "nat option"
  resp_links :: "link list"

record item =
  email :: string
  origin_domain :: string

record spider =
  start_urls :: "string list"
  max_pages_per_domain :: int
  priority_url_keywords :: "string list"
  found_emails :: "item list"
  pages_crawled_per_domain :: "string \<Rightarrow> int"

text \<open>
  \<^verbatim>\<open>EmailSpider.__init__\<close> followed by \<^verbatim>\<open>from_crawler\<close>, which stores the two settings.
  \<open>urls\<close> is the list of start URLs (a comma-separated string has been split).
  \<^verbatim>\<open>defaultdict(int)\<close> is the function that is 0 everywhere.
\<close>

definition new_spider :: "string list \<Rightarrow> int \<Rightarrow> string list \<Rightarrow> spider" where
  "new_spider urls max_pages keywords =
     \<lparr>start_urls = ensure_urls_valid urls, max_pages_per_domain = max_pages,
      priority_url_keywords = keywords, found_emails = [],
      pages_crawled_per_domain = (\<lambda>d. 0)\<rparr>"

text \<open>\<^verbatim>\<open>start_requests\<close>.\<close>

definition start_requests :: "(string \<Rightarrow> parsed_url) \<Rightarrow> spider \<Rightarrow> request list" where
  "start_requests urlparse self =
     map (\<lambda>url. \<lparr>req_url = url, req_priority = 0, req_origin_domain = domain urlparse url\<rparr>)
       (start_urls self)"

text \<open>
  \<^verbatim>\<open>xs[:n]\<close> for a Python integer \<open>n\<close>: a negative \<open>n\<close> counts from the end of the list.
\<close>

definition py_prefix :: "'a list \<Rightarrow> int \<Rightarrow> 'a list" where
  "py_prefix xs n = (if 0 \<le> n then take (nat n) xs else take (nat (int (length xs) + n)) xs)"

text \<open>\<^verbatim>\<open>response.meta.get('depth', 0)\<close>.\<close>

definition hop_depth :: "response \<Rightarrow> nat" where
  "hop_depth response = (case resp_depth response of None \<Rightarrow> 0 | Some depth \<Rightarrow> depth)"

text \<open>
  \<^verbatim>\<open>parse(response)\<close>, run to its end. The result is the list of items it yields, the list
  of requests it yields, and the spider with its updated attributes. Python iterates the
  set of emails in an order of its own; the model takes them in the order of the list
  that stands for the set, and no statement below depends on that order.
\<close>

definition parse :: "(string \<Rightarrow> parsed_url) \<Rightarrow> spider \<Rightarrow> response \<Rightarrow> item list \<times> request list \<times> spider" where
  "parse urlparse self response =
     (let origin = resp_origin_domain response;
          current_domain = domain urlparse (resp_url response);
          emails = extract_emails (resp_text response) current_domain;
          items = map (\<lambda>e. \<lparr>email = e, origin_domain = origin\<rparr>) emails;
          self1 = self\<lparr>found_emails := found_emails self @ items\<rparr>;
          self2 = self1\<lparr>pages_crawled_per_domain :=
                   (pages_crawled_per_domain self1)
                     (current_domain := pages_crawled_per_domain self1 current_domain + 1)\<rparr>
      in
        if pages_crawled_per_domain self2 current_domain > max_pages_per_domain self2
        then (items, [], self2)
        else if hop_depth response = 0
        then
          let links = resp_links response;
              prioritized_links = prioritize_links urlparse links (priority_url_keywords self2);
              links_limit = max_pages_per_domain self2 - pages_crawled_per_domain self2 current_domain
          in (items,
              map (\<lambda>(index, l).
                     \<lparr>req_url = link_url l,
                      req_priority = int (length prioritized_links) - int index,
                      req_origin_domain = origin\<rparr>)
                (List.enumerate 0 (py_prefix prioritized_links links_limit)),
              self2)
        else (items, [], self2))"

text \<open>The three parts of the result of \<^verbatim>\<open>parse\<close>, and the list of ranked links it works with.\<close>

definition parse_items :: "(string \<Rightarrow> parsed_url) \<Rightarrow> spider \<Rightarrow> response \<Rightarrow> item list" where
  "parse_items urlparse self response = fst (parse urlparse self response)"

definition parse_requests :: "(string \<Rightarrow> parsed_url) \<Rightarrow> spider \<Rightarrow> response \<Rightarrow> request list" where
  "parse_requests urlparse self response = fst (snd (parse urlparse self response))"

definition parse_spider :: "(string \<Rightarrow> parsed_url) \<Rightarrow> spider \<Rightarrow> response \<Rightarrow> spider" where
  "parse_spider urlparse self response = snd (snd (parse urlparse self response))"

definition ranked_links :: "(string \<Rightarrow> parsed_url) \<Rightarrow> spider \<Rightarrow> response \<Rightarrow> link list" where
  "ranked_links urlparse self response =
     prioritize_links urlparse (resp_links response) (priority_url_keywords self)"

text \<open>The counter of the current domain after \<^verbatim>\<open>parse\<close> has incremented it.\<close>

definition counter_after :: "(string \<Rightarrow> parsed_url) \<Rightarrow> spider \<Rightarrow> response \<Rightarrow> int" where
  "counter_after urlparse self response =
     pages_crawled_per_domain (parse_spider urlparse self response)
       (domain urlparse (resp_url response))"

subsection \<open>The crawling runtime\<close>

text \<open>
  The runtime is Scrapy; the model keeps what the claims about a crawl run depend on. It
  holds every request with the depth that Scrapy's depth middleware gives it: 0 for a
  start request, and the depth of the response plus 1 for a request that \<^verbatim>\<open>parse\<close> yields
  on that response. \<open>sch_seed\<close> is bookkeeping of the model: the start URL at the head of
  the chain of requests that led to this one.
\<close>

record scheduled =
  sch_request :: request
  sch_depth :: nat
  sch_seed :: string

text \<open>
  A crawl run: the spider, the requests waiting to be fetched, every request produced so
  far, and every item emitted so far together with the seed of the request whose response
  it was extracted from.
\<close>

record crawl =
  cr_spider :: spider
  cr_pending :: "scheduled list"
  cr_produced :: "scheduled list"
  cr_emitted :: "(item \<times> string) list"

definition crawl_start :: "(string \<Rightarrow> parsed_url) \<Rightarrow> spider \<Rightarrow> crawl" where
  "crawl_start urlparse self =
     (let seeds = map (\<lambda>r. \<lparr>sch_request = r, sch_depth = 0, sch_seed = req_url r\<rparr>)
                    (start_requests urlparse self)
      in \<lparr>cr_spider = self, cr_pending = seeds, cr_produced = seeds, cr_emitted = []\<rparr>)"

text \<open>
  The runtime fetched the request \<open>r\<close> and got a page: its URL \<open>page_url\<close>, its text and
  the links that the link extractor finds on it. The response carries the \<^verbatim>\<open>meta\<close> of the
  request, and \<^verbatim>\<open>parse\<close> runs on it.
\<close>

definition response_to :: "scheduled \<Rightarrow> string \<Rightarrow> string \<Rightarrow> link list \<Rightarrow> response" where
  "response_to r page_url page_text page_links =
     \<lparr>resp_url = page_url, resp_text = page_text,
      resp_origin_domain = req_origin_domain (sch_request r),
      resp_depth = Some (sch_depth r), resp_links = page_links\<rparr>"

definition on_response :: "(string \<Rightarrow> parsed_url) \<Rightarrow> crawl \<Rightarrow> scheduled \<Rightarrow> string \<Rightarrow> string \<Rightarrow> link list \<Rightarrow> crawl" where
  "on_response urlparse c r page_url page_text page_links =
     (let response = response_to r page_url page_text page_links;
          (items, requests, self') = parse urlparse (cr_spider c) response;
          children = map (\<lambda>q. \<lparr>sch_request = q, sch_depth = sch_depth r + 1, sch_seed = sch_seed r\<rparr>)
                       requests
      in \<lparr>cr_spider = self',
          cr_pending = remove1 r (cr_pending c) @ children,
          cr_produced = cr_produced c @ children,
          cr_emitted = cr_emitted c @ map (\<lambda>it. (it, sch_seed r)) items\<rparr>)"

text \<open>
  The states of a crawl run that starts from the spider \<open>self\<close>: a waiting request is
  fetched and answered by any page at all, or it is dropped (the fetch failed, or the
  runtime filtered it as a duplicate).
\<close>

inductive reachable :: "(string \<Rightarrow> parsed_url) \<Rightarrow> spider \<Rightarrow> crawl \<Rightarrow> bool"
  for urlparse :: "string \<Rightarrow> parsed_url" and self :: spider
  where
    start: "reachable urlparse self (crawl_start urlparse self)"
  | fetched: "reachable urlparse self c \<Longrightarrow> r \<in> set (cr_pending c) \<Longrightarrow>
       reachable urlparse self (on_response urlparse c r page_url page_text page_links)"
  | dropped: "reachable urlparse self c \<Longrightarrow> r \<in> set (cr_pending c) \<Longrightarrow>
       reachable urlparse self (c\<lparr>cr_pending := remove1 r (cr_pending c)\<rparr>)"

text \<open>
  What \<^verbatim>\<open>urlparse\<close> returns on the URLs of the example run below, in which the runtime
  follows a redirect from \<^verbatim>\<open>https://example.com\<close> to a page of \<^verbatim>\<open>other.org\<close>.
\<close>

definition example_urlparse :: "string \<Rightarrow> parsed_url" where
  "example_urlparse u =
     (if u = ''https://example.com'' then \<lparr>netloc = ''example.com'', path = []\<rparr>
      else if u = ''https://other.org/home'' then \<lparr>netloc = ''other.org'', path = ''/home''\<rparr>
      else if u = ''https://other.org/contact'' then \<lparr>netloc = ''other.org'', path = ''/contact''\<rparr>
      else if u = ''https://other.org/team'' then \<lparr>netloc = ''other.org'', path = ''/team''\<rparr>
      else \<lparr>netloc = [], path = u\<rparr>)"


text \<open>
  The example run: one seed, a budget of two pages, the keyword \<open>contact\<close>. The seed
  request is answered by a page of \<^verbatim>\<open>other.org\<close> with three links, and the one follow-up
  request that the budget allows by the contact page.
\<close>

definition example_spider :: spider where
  "example_spider = new_spider [''example.com''] 2 [''contact'']"

definition example_seed :: scheduled where
  "example_seed =
     \<lparr>sch_request = \<lparr>req_url = ''https://example.com'', req_priority = 0,
                      req_origin_domain = ''example.com''\<rparr>,
      sch_depth = 0, sch_seed = ''https://example.com''\<rparr>"

definition example_home :: response where
  "example_home =
     \<lparr>resp_url = ''https://other.org/home'', resp_text = ''mail sales@other.org or x@example.com'',
      resp_origin_domain = ''example.com'', resp_depth = Some 0,
      resp_links = [\<lparr>link_url = ''https://other.org/team''\<rparr>,
                    \<lparr>link_url = ''https://other.org/contact''\<rparr>,
                    \<lparr>link_url = ''https://other.org/home''\<rparr>]\<rparr>"

definition example_child :: scheduled where
  "example_child =
     \<lparr>sch_request = \<lparr>req_url = ''https://other.org/contact'', req_priority = 3,
                      req_origin_domain = ''example.com''\<rparr>,
      sch_depth = 1, sch_seed = ''https://example.com''\<rparr>"

definition example_run1 :: crawl where
  "example_run1 =
     on_response example_urlparse (crawl_start example_urlparse example_spider) example_seed
       (resp_url example_home) (resp_text example_home) (resp_links example_home)"

definition example_run2 :: crawl where
  "example_run2 =
     on_response example_urlparse example_run1 example_child
       ''https://other.org/contact'' ''ceo@other.org'' [\<lparr>link_url = ''https://other.org/team''\<rparr>]"

subsection \<open>Seed normalization\<close>

lemma startswith_any_schemes: "startswith_any url [''http://'', ''https://''] = has_scheme url"
  by (simp add: startswith_any_def has_scheme_def)

lemma ensure_loop_map: "ensure_loop urls valid_urls = valid_urls @ map normalize_seed urls"
proof (induction urls arbitrary: valid_urls)
  case Nil
  show ?case by simp
next
  case (Cons url urls)
  have "(if \<not> startswith_any url [''http://'', ''https://''] then ''https://'' @ url else url) = normalize_seed url"
    unfolding startswith_any_schemes normalize_seed_def by simp
  then show ?case
    by (simp add: Cons.IH)
qed

lemma has_scheme_normalize_seed: "has_scheme (normalize_seed url)"
  by (simp add: normalize_seed_def has_scheme_def)

text \<open>
  Claim C9. \<open>ensure_urls_valid\<close> applies seed normalization to every URL of its input, in
  order and without dropping any: a URL that starts with \<^verbatim>\<open>http://\<close> or \<^verbatim>\<open>https://\<close> comes
  back unchanged, any other string gets \<^verbatim>\<open>https://\<close> in front. It is a total function of
  its input with no error result, and every URL it returns carries a scheme.
\<close>

theorem ensure_urls_valid_normalizes:
  "ensure_urls_valid urls = map normalize_seed urls \<and>
   length (ensure_urls_valid urls) = length urls \<and>
   (has_scheme url \<longrightarrow> normalize_seed url = url) \<and>
   (\<not> has_scheme url \<longrightarrow> normalize_seed url = ''https://'' @ url) \<and>
   (\<forall>u\<in>set (ensure_urls_valid urls). has_scheme u)"
proof -
  have m: "ensure_urls_valid urls = map normalize_seed urls"
    by (simp add: ensure_urls_valid_def ensure_loop_map)
  then have len: "length (ensure_urls_valid urls) = length urls"
    by simp
  have all: "\<forall>u\<in>set (ensure_urls_valid urls). has_scheme u"
    unfolding m by (auto simp: has_scheme_normalize_seed)
  have keep: "has_scheme url \<longrightarrow> normalize_seed url = url"
    and add: "\<not> has_scheme url \<longrightarrow> normalize_seed url = ''https://'' @ url"
    by (simp_all add: normalize_seed_def)
  from m len keep add all show ?thesis
    by (intro conjI)
qed

theorem ensure_urls_valid_normalizes_witness:
  "ensure_urls_valid [''example.com'', ''http://a.org/x'', ''HTTP://b.org''] =
     [''https://example.com'', ''http://a.org/x'', ''https://HTTP://b.org''] \<and>
   has_scheme ''http://a.org/x'' \<and> normalize_seed ''http://a.org/x'' = ''http://a.org/x'' \<and>
   \<not> has_scheme ''example.com'' \<and> normalize_seed ''example.com'' = ''https://'' @ ''example.com''"
proof -
  have h: "has_scheme ''http://a.org/x''" "\<not> has_scheme ''example.com''"
    by code_simp+
  have e: "map normalize_seed [''example.com'', ''http://a.org/x'', ''HTTP://b.org''] =
     [''https://example.com'', ''http://a.org/x'', ''https://HTTP://b.org'']"
    by code_simp
  from ensure_urls_valid_normalizes [of "[''example.com'', ''http://a.org/x'', ''HTTP://b.org'']" "''http://a.org/x''"]
    ensure_urls_valid_normalizes [of "[]" "''example.com''"] h e
  show ?thesis
    by metis
qed

subsection \<open>What \<^verbatim>\<open>parse\<close> yields\<close>

lemma parse_items_eq:
  "parse_items urlparse self response =
     map (\<lambda>e. \<lparr>email = e, origin_domain = resp_origin_domain response\<rparr>)
       (extract_emails (resp_text response) (domain urlparse (resp_url response)))"
  by (simp add: parse_items_def parse_def Let_def)

lemma counter_after_eq:
  "counter_after urlparse self response =
     pages_crawled_per_domain self (domain urlparse (resp_url response)) + 1"
  by (simp add: counter_after_def parse_spider_def parse_def Let_def)

lemma parse_spider_settings:
  "max_pages_per_domain (parse_spider urlparse self response) = max_pages_per_domain self"
  "priority_url_keywords (parse_spider urlparse self response) = priority_url_keywords self"
  "start_urls (parse_spider urlparse self response) = start_urls self"
  by (simp_all add: parse_spider_def parse_def Let_def)

lemma parse_requests_eq:
  "parse_requests urlparse self response =
     (if counter_after urlparse self response > max_pages_per_domain self then []
      else if hop_depth response = 0 then
        map (\<lambda>(index, l).
               \<lparr>req_url = link_url l,
                req_priority = int (length (ranked_links urlparse self response)) - int index,
                req_origin_domain = resp_origin_domain response\<rparr>)
          (List.enumerate 0
             (py_prefix (ranked_links urlparse self response)
                (max_pages_per_domain self - counter_after urlparse self response)))
      else [])"
  by (simp add: parse_requests_def counter_after_eq ranked_links_def parse_def Let_def)

lemma parse_requests_leaf: "hop_depth response \<noteq> 0 \<Longrightarrow> parse_requests urlparse self response = []"
  by (simp add: parse_requests_eq)

lemma parse_requests_origin:
  "q \<in> set (parse_requests urlparse self response) \<Longrightarrow>
   req_origin_domain q = resp_origin_domain response"
  by (auto simp: parse_requests_eq split: if_splits)

lemma parse_items_origin:
  "it \<in> set (parse_items urlparse self response) \<Longrightarrow> origin_domain it = resp_origin_domain response"
  by (auto simp: parse_items_eq)

lemma enumerated_urls:
  "map req_url (map (\<lambda>(index, l). \<lparr>req_url = link_url l, req_priority = f index, req_origin_domain = o'\<rparr>)
     (List.enumerate 0 xs)) = map link_url xs"
  by (rule nth_equalityI) (simp_all add: nth_enumerate_eq)

text \<open>
  Claim C3. \<open>parse\<close> increments the counter of the current domain. When the counter then
  exceeds \<open>max_pages_per_domain\<close> it yields no requests; when the depth of the response is
  not 0 it yields no requests; otherwise the URLs of the requests it yields are the first
  \<open>max_pages_per_domain - counter\<close> ranked links (all of them when there are fewer), so a
  prefix of the ranked links of at most that length, and the request at position \<open>i\<close> has
  the priority \<open>len(ranked links) - i\<close>.
\<close>

theorem parse_follow_ups:
  "counter_after urlparse self response =
     pages_crawled_per_domain self (domain urlparse (resp_url response)) + 1 \<and>
   (counter_after urlparse self response > max_pages_per_domain self \<longrightarrow>
      parse_requests urlparse self response = []) \<and>
   (hop_depth response \<noteq> 0 \<longrightarrow> parse_requests urlparse self response = []) \<and>
   (\<not> counter_after urlparse self response > max_pages_per_domain self \<and> hop_depth response = 0 \<longrightarrow>
      map req_url (parse_requests urlparse self response) =
        take (nat (max_pages_per_domain self - counter_after urlparse self response))
          (map link_url (ranked_links urlparse self response)) \<and>
      prefix (map req_url (parse_requests urlparse self response))
        (map link_url (ranked_links urlparse self response)) \<and>
      int (length (parse_requests urlparse self response))
        \<le> max_pages_per_domain self - counter_after urlparse self response \<and>
      (\<forall>i<length (parse_requests urlparse self response).
         req_priority (parse_requests urlparse self response ! i) =
           int (length (ranked_links urlparse self response)) - int i))"
proof -
  let ?c = "counter_after urlparse self response"
  let ?max = "max_pages_per_domain self"
  let ?ranked = "ranked_links urlparse self response"
  let ?reqs = "parse_requests urlparse self response"
  have expand: "map req_url ?reqs = take (nat (?max - ?c)) (map link_url ?ranked) \<and>
      prefix (map req_url ?reqs) (map link_url ?ranked) \<and>
      int (length ?reqs) \<le> ?max - ?c \<and>
      (\<forall>i<length ?reqs. req_priority (?reqs ! i) = int (length ?ranked) - int i)"
    if open_budget: "\<not> ?c > ?max" and seed: "hop_depth response = 0"
  proof -
    let ?taken = "take (nat (?max - ?c)) ?ranked"
    from open_budget have limit: "py_prefix ?ranked (?max - ?c) = ?taken"
      by (simp add: py_prefix_def)
    from open_budget seed have reqs: "?reqs =
        map (\<lambda>(index, l). \<lparr>req_url = link_url l, req_priority = int (length ?ranked) - int index,
               req_origin_domain = resp_origin_domain response\<rparr>) (List.enumerate 0 ?taken)"
      by (simp add: parse_requests_eq limit)
    have urls: "map req_url ?reqs = take (nat (?max - ?c)) (map link_url ?ranked)"
      unfolding reqs enumerated_urls by (simp add: take_map)
    have pre: "prefix (map req_url ?reqs) (map link_url ?ranked)"
      unfolding urls by (rule take_is_prefix)
    have len: "length ?reqs = length ?taken"
      by (simp add: reqs)
    with open_budget have bound: "int (length ?reqs) \<le> ?max - ?c"
      by simp
    have prio: "req_priority (?reqs ! i) = int (length ?ranked) - int i" if "i < length ?reqs" for i
    proof -
      from that len have "i < length ?taken" by simp
      then show ?thesis
        unfolding reqs by (simp add: nth_enumerate_eq)
    qed
    from urls pre bound prio show ?thesis
      by blast
  qed
  have over: "?reqs = []" if "?c > ?max"
    using that by (simp add: parse_requests_eq)
  have leaf: "?reqs = []" if "hop_depth response \<noteq> 0"
    using that by (rule parse_requests_leaf)
  from counter_after_eq [of urlparse self response] over leaf expand show ?thesis
    by blast
qed

theorem parse_follow_ups_witness:
  "\<not> counter_after example_urlparse example_spider example_home > max_pages_per_domain example_spider \<and>
   hop_depth example_home = 0 \<and>
   map link_url (ranked_links example_urlparse example_spider example_home) =
     [''https://other.org/contact'', ''https://other.org/team'', ''https://other.org/home''] \<and>
   map req_url (parse_requests example_urlparse example_spider example_home) =
     [''https://other.org/contact''] \<and>
   req_priority (parse_requests example_urlparse example_spider example_home ! 0) = 3"
proof -
  let ?reqs = "parse_requests example_urlparse example_spider example_home"
  let ?ranked = "ranked_links example_urlparse example_spider example_home"
  have h: "\<not> counter_after example_urlparse example_spider example_home > max_pages_per_domain example_spider \<and>
      hop_depth example_home = 0"
    by code_simp
  have ranked: "map link_url ?ranked =
      [''https://other.org/contact'', ''https://other.org/team'', ''https://other.org/home'']"
    by code_simp
  have limit: "nat (max_pages_per_domain example_spider
      - counter_after example_urlparse example_spider example_home) = 1"
    by code_simp
  note inst = parse_follow_ups [of example_urlparse example_spider example_home]
  from inst h have urls: "map req_url ?reqs =
      take (nat (max_pages_per_domain example_spider
        - counter_after example_urlparse example_spider example_home)) (map link_url ?ranked)"
    by blast
  then have urls': "map req_url ?reqs = [''https://other.org/contact'']"
    unfolding limit ranked by simp
  then have "length (map req_url ?reqs) = 1"
    by simp
  then have "0 < length ?reqs"
    by simp
  with inst h have "req_priority (?reqs ! 0) = int (length ?ranked) - int 0"
    by blast
  moreover have "length ?ranked = length (map link_url ?ranked)"
    by simp
  ultimately have prio: "req_priority (?reqs ! 0) = 3"
    unfolding ranked by simp
  from h ranked urls' prio show ?thesis
    by blast
qed

subsection \<open>Crawl runs\<close>

lemma on_response_eq:
  "on_response urlparse c r page_url page_text page_links =
     \<lparr>cr_spider = parse_spider urlparse (cr_spider c) (response_to r page_url page_text page_links),
      cr_pending = remove1 r (cr_pending c) @
        map (\<lambda>q. \<lparr>sch_request = q, sch_depth = sch_depth r + 1, sch_seed = sch_seed r\<rparr>)
          (parse_requests urlparse (cr_spider c) (response_to r page_url page_text page_links)),
      cr_produced = cr_produced c @
        map (\<lambda>q. \<lparr>sch_request = q, sch_depth = sch_depth r + 1, sch_seed = sch_seed r\<rparr>)
          (parse_requests urlparse (cr_spider c) (response_to r page_url page_text page_links)),
      cr_emitted = cr_emitted c @
        map (\<lambda>it. (it, sch_seed r))
          (parse_items urlparse (cr_spider c) (response_to r page_url page_text page_links))\<rparr>"
  by (simp add: on_response_def Let_def parse_spider_def parse_requests_def parse_items_def
      split: prod.split)

lemma response_to_simps:
  "resp_origin_domain (response_to r u t ls) = req_origin_domain (sch_request r)"
  "hop_depth (response_to r u t ls) = sch_depth r"
  "resp_url (response_to r u t ls) = u"
  by (simp_all add: response_to_def hop_depth_def)

lemma crawl_start_produced:
  assumes "r \<in> set (cr_produced (crawl_start urlparse self))"
  shows "sch_depth r = 0" and "sch_seed r \<in> set (start_urls self)"
    and "req_origin_domain (sch_request r) = domain urlparse (sch_seed r)"
  using assms by (auto simp: crawl_start_def start_requests_def Let_def)

lemma on_response_new_request:
  assumes "q \<in> set (cr_produced (on_response urlparse c r u t ls))" and "q \<notin> set (cr_produced c)"
  shows "sch_depth r = 0" and "sch_depth q = 1" and "sch_seed q = sch_seed r"
    and "req_origin_domain (sch_request q) = req_origin_domain (sch_request r)"
proof -
  let ?response = "response_to r u t ls"
  from assms obtain q' where q': "q' \<in> set (parse_requests urlparse (cr_spider c) ?response)"
    and q: "q = \<lparr>sch_request = q', sch_depth = sch_depth r + 1, sch_seed = sch_seed r\<rparr>"
    by (auto simp: on_response_eq)
  from q' have "parse_requests urlparse (cr_spider c) ?response \<noteq> []"
    by auto
  with parse_requests_leaf [of ?response urlparse "cr_spider c"] show d: "sch_depth r = 0"
    by (auto simp: response_to_simps)
  with q show "sch_depth q = 1" "sch_seed q = sch_seed r"
    by simp_all
  from parse_requests_origin [OF q'] q
  show "req_origin_domain (sch_request q) = req_origin_domain (sch_request r)"
    by (simp add: response_to_simps)
qed

lemma on_response_new_item:
  assumes "(it, seed) \<in> set (cr_emitted (on_response urlparse c r u t ls))"
    and "(it, seed) \<notin> set (cr_emitted c)"
  shows "seed = sch_seed r" and "origin_domain it = req_origin_domain (sch_request r)"
proof -
  from assms have it: "it \<in> set (parse_items urlparse (cr_spider c) (response_to r u t ls))"
    and "seed = sch_seed r"
    by (auto simp: on_response_eq)
  then show "seed = sch_seed r"
    by simp
  from parse_items_origin [OF it] show "origin_domain it = req_origin_domain (sch_request r)"
    by (simp add: response_to_simps)
qed

lemma reachable_invariant:
  assumes "reachable urlparse self c"
  shows "set (cr_pending c) \<subseteq> set (cr_produced c)"
    and "\<And>r. r \<in> set (cr_produced c) \<Longrightarrow>
           sch_depth r \<le> 1 \<and> sch_seed r \<in> set (start_urls self) \<and>
           req_origin_domain (sch_request r) = domain urlparse (sch_seed r)"
    and "\<And>it seed. (it, seed) \<in> set (cr_emitted c) \<Longrightarrow>
           seed \<in> set (start_urls self) \<and> origin_domain it = domain urlparse seed"
  using assms
proof (induction rule: reachable.induct)
  case start
  {
    case 1
    show ?case by (simp add: crawl_start_def Let_def)
  next
    case (2 r)
    with crawl_start_produced [of r urlparse self] show ?case by simp
  next
    case (3 it seed)
    then show ?case by (simp add: crawl_start_def Let_def)
  }
next
  case (fetched c r page_url page_text page_links)
  let ?c' = "on_response urlparse c r page_url page_text page_links"
  from fetched.hyps(2) fetched.IH(1) have r: "r \<in> set (cr_produced c)"
    by auto
  note parent = fetched.IH(2) [OF r]
  {
    case 1
    from fetched.IH(1) set_remove1_subset [of r "cr_pending c"] show ?case
      by (auto simp: on_response_eq)
  next
    case (2 q)
    show ?case
    proof (cases "q \<in> set (cr_produced c)")
      case True
      then show ?thesis by (rule fetched.IH(2))
    next
      case False
      from on_response_new_request [OF 2 False] parent show ?thesis
        by simp
    qed
  next
    case (3 it seed)
    show ?case
    proof (cases "(it, seed) \<in> set (cr_emitted c)")
      case True
      then show ?thesis by (rule fetched.IH(3))
    next
      case False
      from on_response_new_item [OF 3 False] parent show ?thesis
        by simp
    qed
  }
next
  case (dropped c r)
  {
    case 1
    from dropped.IH(1) set_remove1_subset [of r "cr_pending c"] show ?case
      by auto
  next
    case (2 q)
    then show ?case using dropped.IH(2) by simp
  next
    case (3 it seed)
    then show ?case using dropped.IH(3) by simp
  }
qed

lemma example_run1_reachable: "reachable example_urlparse example_spider example_run1"
proof -
  have "example_seed \<in> set (cr_pending (crawl_start example_urlparse example_spider))"
    by code_simp
  with reachable.start show ?thesis
    unfolding example_run1_def by (rule reachable.fetched)
qed

lemma example_run2_reachable: "reachable example_urlparse example_spider example_run2"
proof -
  have "example_child \<in> set (cr_pending example_run1)"
    by code_simp
  with example_run1_reachable show ?thesis
    unfolding example_run2_def by (rule reachable.fetched)
qed

text \<open>
  Claim C4. In every state of a crawl run, every emitted item carries as \<open>origin_domain\<close>
  the domain of the seed URL at the head of the chain of requests that led to its page,
  and every request produced carries that domain in its \<^verbatim>\<open>meta\<close>: \<open>parse\<close> copies the
  \<open>origin_domain\<close> of the response into every item and every request it yields. The
  domain of the fetched page plays no part: in the example run the pages are on
  \<^verbatim>\<open>other.org\<close> and the items carry \<^verbatim>\<open>example.com\<close>.
\<close>

theorem origin_domain_of_seed:
  assumes "reachable urlparse self c"
  shows "(\<forall>(it, seed)\<in>set (cr_emitted c).
            seed \<in> set (start_urls self) \<and> origin_domain it = domain urlparse seed) \<and>
         (\<forall>r\<in>set (cr_produced c).
            sch_seed r \<in> set (start_urls self) \<and>
            req_origin_domain (sch_request r) = domain urlparse (sch_seed r)) \<and>
         (\<forall>it\<in>set (parse_items urlparse s response).
            origin_domain it = resp_origin_domain response) \<and>
         (\<forall>q\<in>set (parse_requests urlparse s response).
            req_origin_domain q = resp_origin_domain response)"
  using reachable_invariant(2,3) [OF assms] parse_items_origin parse_requests_origin
  by blast

theorem origin_domain_of_seed_witness:
  "reachable example_urlparse example_spider example_run2 \<and>
   cr_emitted example_run2 =
     [(\<lparr>email = ''sales@other.org'', origin_domain = ''example.com''\<rparr>, ''https://example.com''),
      (\<lparr>email = ''ceo@other.org'', origin_domain = ''example.com''\<rparr>, ''https://example.com'')] \<and>
   origin_domain \<lparr>email = ''sales@other.org'', origin_domain = ''example.com''\<rparr> =
     domain example_urlparse ''https://example.com'' \<and>
   domain example_urlparse ''https://other.org/home'' = ''other.org'' \<and>
   domain example_urlparse ''https://example.com'' = ''example.com''"
proof -
  have e: "cr_emitted example_run2 =
     [(\<lparr>email = ''sales@other.org'', origin_domain = ''example.com''\<rparr>, ''https://example.com''),
      (\<lparr>email = ''ceo@other.org'', origin_domain = ''example.com''\<rparr>, ''https://example.com'')]"
    by code_simp
  then have "(\<lparr>email = ''sales@other.org'', origin_domain = ''example.com''\<rparr>, ''https://example.com'')
      \<in> set (cr_emitted example_run2)"
    by simp
  with origin_domain_of_seed [OF example_run2_reachable, of example_spider example_home]
  have o: "origin_domain \<lparr>email = ''sales@other.org'', origin_domain = ''example.com''\<rparr> =
     domain example_urlparse ''https://example.com''"
    by blast
  have d: "domain example_urlparse ''https://other.org/home'' = ''other.org''"
    "domain example_urlparse ''https://example.com'' = ''example.com''"
    by code_simp+
  from example_run2_reachable e o d show ?thesis
    by (intro conjI)
qed

text \<open>
  Claim C5. In every state of a crawl run no request produced has a depth above 1: the
  start requests have depth 0, the response to a request of another depth produces no
  request, and a request produced on the response to a request of depth 0 has depth 1.
\<close>

theorem hop_depth_at_most_one:
  assumes "reachable urlparse self c"
  shows "(\<forall>r\<in>set (cr_produced c). sch_depth r \<le> 1) \<and>
         (\<forall>r\<in>set (cr_produced (crawl_start urlparse self)). sch_depth r = 0) \<and>
         (sch_depth r \<noteq> 0 \<longrightarrow>
            cr_produced (on_response urlparse c r page_url page_text page_links) = cr_produced c) \<and>
         (\<forall>q\<in>set (cr_produced (on_response urlparse c r page_url page_text page_links)).
            q \<in> set (cr_produced c) \<or> sch_depth r = 0 \<and> sch_depth q = 1)"
proof -
  have leaf: "cr_produced (on_response urlparse c r page_url page_text page_links) = cr_produced c"
    if "sch_depth r \<noteq> 0"
    using that parse_requests_leaf [of "response_to r page_url page_text page_links" urlparse "cr_spider c"]
    by (simp add: on_response_eq response_to_simps)
  from reachable_invariant(2) [OF assms] crawl_start_produced(1) [of _ urlparse self] leaf
    on_response_new_request(1,2) [of _ urlparse c r page_url page_text page_links]
  show ?thesis
    by blast
qed

theorem hop_depth_at_most_one_witness:
  "reachable example_urlparse example_spider example_run2 \<and>
   map sch_depth (cr_produced example_run2) = [0, 1] \<and>
   sch_depth example_child \<noteq> 0 \<and>
   cr_produced (on_response example_urlparse example_run1 example_child
       ''https://other.org/contact'' ''ceo@other.org'' [\<lparr>link_url = ''https://other.org/team''\<rparr>])
     = cr_produced example_run1"
proof -
  have d: "sch_depth example_child \<noteq> 0"
    by code_simp
  have p: "map sch_depth (cr_produced example_run2) = [0, 1]"
    by code_simp
  from d hop_depth_at_most_one [OF example_run1_reachable, of example_child]
  have "cr_produced (on_response example_urlparse example_run1 example_child
       ''https://other.org/contact'' ''ceo@other.org'' [\<lparr>link_url = ''https://other.org/team''\<rparr>])
     = cr_produced example_run1"
    by blast
  with example_run2_reachable p d show ?thesis
    by (intro conjI)
qed

end
